theory Spec2Isabelle
  imports Main "HOL-Library.Word"
begin

unbundle bit_operations_syntax

section \<open>Data model of the define-use layer (src/src/moarvm.c, second part)\<close>

text \<open>
  The declarations of the structs live in \<^verbatim>\<open>moar.h\<close>, which is not among the sources;
  the fields below are the ones the functions of the file read and write.

  An \<^verbatim>\<open>MVMSpeshIns *\<close> is modelled by the address it holds: the code compares
  instructions with \<^verbatim>\<open>==\<close> on pointers, never on contents.
\<close>

type_synonym ins_ptr = nat

text \<open>\<^verbatim>\<open>MVMOpInfo\<close>: opcode, name, number of operands and the per-operand flag bytes.
  The integer widths of these fields are declared in the absent header, so they are
  natural numbers here; the code only applies \<^verbatim>\<open>==\<close>, \<^verbatim>\<open>&\<close> and \<^verbatim>\<open><\<close> to them.\<close>

record MVMOpInfo =
  opcode :: nat
  name :: string
  num_operands :: nat
  info_operands :: "nat \<Rightarrow> nat"

text \<open>\<^verbatim>\<open>MVMSpeshOperand\<close> is a union; only its \<^verbatim>\<open>reg\<close> member
  (\<^verbatim>\<open>reg.orig\<close>, \<^verbatim>\<open>reg.i\<close>) is read by this file.\<close>

record MVMSpeshOperand =
  reg_orig :: nat
  reg_i :: nat

record MVMSpeshIns =
  addr :: ins_ptr
  info :: MVMOpInfo
  operands :: "nat \<Rightarrow> MVMSpeshOperand"

text \<open>The use chain \<^verbatim>\<open>usage.users\<close> is a singly linked list of
  \<^verbatim>\<open>MVMSpeshUseChainEntry {user, next}\<close>: the list of the \<^verbatim>\<open>user\<close> pointers from the
  head, \<^verbatim>\<open>NULL\<close> being the empty list. The two flags are used as truth values only
  (\<^verbatim>\<open>= 1\<close>, \<^verbatim>\<open>!\<close>, \<^verbatim>\<open>||\<close>).\<close>

record MVMSpeshUsages =
  users :: "ins_ptr list"
  deopt_required :: bool
  handler_required :: bool

record MVMSpeshFacts =
  writer :: "ins_ptr option"
  usage :: MVMSpeshUsages

text \<open>A basic block with the instructions reached from \<^verbatim>\<open>first_ins\<close> through
  \<^verbatim>\<open>next\<close>; a graph with the blocks reached from \<^verbatim>\<open>entry\<close> through
  \<^verbatim>\<open>linear_next\<close> and the table \<^verbatim>\<open>facts[orig][i]\<close>. The three linked lists of
  the file (use chain, instructions, blocks) are lists here: they end in \<^verbatim>\<open>NULL\<close>,
  none of them runs into itself. The table is a function of the two indices; the code
  does not check them against the size of the table.\<close>

record MVMSpeshBB =
  idx :: nat
  first_ins :: "MVMSpeshIns list"

record MVMSpeshGraph =
  entry :: "MVMSpeshBB list"
  facts :: "nat \<Rightarrow> nat \<Rightarrow> MVMSpeshFacts"

text \<open>\<^verbatim>\<open>MVM_oops(tc, fmt, ...)\<close> does not return. Its diagnostic is the format string
  with the arguments passed for its conversions.\<close>

datatype fmt_arg = Str string | Num int

datatype diagnostic = Diagnostic string "fmt_arg list"

text \<open>The outcome of a function that updates its argument in place: it returned, or it
  called \<^verbatim>\<open>MVM_oops\<close>; in both cases with the state it left behind.\<close>

datatype 's result = Returned 's | Aborted diagnostic 's

fun state_of :: "'s result \<Rightarrow> 's" where
  "state_of (Returned s) = s"
| "state_of (Aborted e s) = s"

fun diagnostic_of :: "'s result \<Rightarrow> diagnostic option" where
  "diagnostic_of (Returned s) = None"
| "diagnostic_of (Aborted e s) = Some e"

section \<open>Resolving an operand to its facts\<close>

text \<open>Modelled from the spec: \<^verbatim>\<open>MVM_spesh_get_facts\<close> is not among the sources. The
  by-operand forms "resolve an Operand to its Facts first, then delegate", an operand
  naming a value by its (register, version) pair; the checker in the source reads the
  same entry as \<^verbatim>\<open>g->facts[reg.orig][reg.i]\<close>.\<close>

definition MVM_spesh_get_facts :: "MVMSpeshGraph \<Rightarrow> MVMSpeshOperand \<Rightarrow> MVMSpeshFacts" where
  "MVM_spesh_get_facts g used = facts g (reg_orig used) (reg_i used)"

text \<open>Writing through the pointer that \<^verbatim>\<open>MVM_spesh_get_facts\<close> returns updates that
  entry of the table.\<close>

definition put_facts :: "MVMSpeshGraph \<Rightarrow> MVMSpeshOperand \<Rightarrow> MVMSpeshFacts \<Rightarrow> MVMSpeshGraph" where
  "put_facts g used f =
     g\<lparr>facts := (facts g)(reg_orig used := (facts g (reg_orig used))(reg_i used := f))\<rparr>"

section \<open>Adding and removing usages\<close>

definition MVM_spesh_usages_add :: "MVMSpeshFacts \<Rightarrow> MVMSpeshIns \<Rightarrow> MVMSpeshFacts" where
  "MVM_spesh_usages_add fs by_ins =
     fs\<lparr>usage := (usage fs)\<lparr>users := addr by_ins # users (usage fs)\<rparr>\<rparr>"

definition MVM_spesh_usages_add_by_reg ::
  "MVMSpeshGraph \<Rightarrow> MVMSpeshOperand \<Rightarrow> MVMSpeshIns \<Rightarrow> MVMSpeshGraph" where
  "MVM_spesh_usages_add_by_reg g used by_ins =
     put_facts g used (MVM_spesh_usages_add (MVM_spesh_get_facts g used) by_ins)"

text \<open>The loop of \<^verbatim>\<open>MVM_spesh_usages_delete\<close>. \<open>prev\<close> holds the entries already passed
  (empty while the pointer \<^verbatim>\<open>prev\<close> is \<^verbatim>\<open>NULL\<close>), the second argument the chain from
  \<^verbatim>\<open>cur\<close> on. \<open>Some\<close> is the chain left by the unlinking, \<open>None\<close> is falling out of the
  loop.\<close>

fun delete_loop :: "ins_ptr list \<Rightarrow> ins_ptr list \<Rightarrow> ins_ptr \<Rightarrow> ins_ptr list option" where
  "delete_loop prev [] p = None"
| "delete_loop prev (cur # nxt) p =
     (if cur = p then
        (if prev \<noteq> [] then Some (prev @ nxt) else Some nxt)
      else delete_loop (prev @ [cur]) nxt p)"

definition MVM_spesh_usages_delete ::
  "MVMSpeshFacts \<Rightarrow> MVMSpeshIns \<Rightarrow> MVMSpeshFacts result" where
  "MVM_spesh_usages_delete fs by_ins =
     (case delete_loop [] (users (usage fs)) (addr by_ins) of
        Some us \<Rightarrow> Returned (fs\<lparr>usage := (usage fs)\<lparr>users := us\<rparr>\<rparr>)
      | None \<Rightarrow>
          Aborted (Diagnostic ''Spesh: instruction %s missing from define-use chain''
                    [Str (name (info by_ins))]) fs)"

definition MVM_spesh_usages_delete_by_reg ::
  "MVMSpeshGraph \<Rightarrow> MVMSpeshOperand \<Rightarrow> MVMSpeshIns \<Rightarrow> MVMSpeshGraph result" where
  "MVM_spesh_usages_delete_by_reg g used by_ins =
     (case MVM_spesh_usages_delete (MVM_spesh_get_facts g used) by_ins of
        Returned fs \<Rightarrow> Returned (put_facts g used fs)
      | Aborted e fs \<Rightarrow> Aborted e (put_facts g used fs))"

section \<open>Marking for deoptimisation and for handlers\<close>

definition MVM_spesh_usages_add_for_deopt :: "MVMSpeshFacts \<Rightarrow> MVMSpeshFacts" where
  "MVM_spesh_usages_add_for_deopt fs = fs\<lparr>usage := (usage fs)\<lparr>deopt_required := True\<rparr>\<rparr>"

definition MVM_spesh_usages_add_for_deopt_by_reg ::
  "MVMSpeshGraph \<Rightarrow> MVMSpeshOperand \<Rightarrow> MVMSpeshGraph" where
  "MVM_spesh_usages_add_for_deopt_by_reg g used =
     put_facts g used (MVM_spesh_usages_add_for_deopt (MVM_spesh_get_facts g used))"

definition MVM_spesh_usages_add_for_handler :: "MVMSpeshFacts \<Rightarrow> MVMSpeshFacts" where
  "MVM_spesh_usages_add_for_handler fs = fs\<lparr>usage := (usage fs)\<lparr>handler_required := True\<rparr>\<rparr>"

definition MVM_spesh_usages_add_for_handler_by_reg ::
  "MVMSpeshGraph \<Rightarrow> MVMSpeshOperand \<Rightarrow> MVMSpeshGraph" where
  "MVM_spesh_usages_add_for_handler_by_reg g used =
     put_facts g used (MVM_spesh_usages_add_for_handler (MVM_spesh_get_facts g used))"

section \<open>Queries\<close>

definition MVM_spesh_usages_is_used :: "MVMSpeshGraph \<Rightarrow> MVMSpeshOperand \<Rightarrow> bool" where
  "MVM_spesh_usages_is_used g check =
     (let fs = MVM_spesh_get_facts g check in
      deopt_required (usage fs) \<or> handler_required (usage fs) \<or> users (usage fs) \<noteq> [])"

definition MVM_spesh_usages_is_used_by_deopt :: "MVMSpeshGraph \<Rightarrow> MVMSpeshOperand \<Rightarrow> bool" where
  "MVM_spesh_usages_is_used_by_deopt g check =
     (let fs = MVM_spesh_get_facts g check in deopt_required (usage fs))"

definition MVM_spesh_usages_is_used_by_handler :: "MVMSpeshGraph \<Rightarrow> MVMSpeshOperand \<Rightarrow> bool" where
  "MVM_spesh_usages_is_used_by_handler g check =
     (let fs = MVM_spesh_get_facts g check in handler_required (usage fs))"

text \<open>\<^verbatim>\<open>users && !users->next\<close>: the chain has a first entry and that entry has no
  successor.\<close>

definition MVM_spesh_usages_used_once :: "MVMSpeshGraph \<Rightarrow> MVMSpeshOperand \<Rightarrow> bool" where
  "MVM_spesh_usages_used_once g check =
     (let fs = MVM_spesh_get_facts g check in
      \<not> deopt_required (usage fs) \<and> \<not> handler_required (usage fs) \<and>
      (case users (usage fs) of [] \<Rightarrow> False | cur # nxt \<Rightarrow> nxt = []))"

text \<open>The counter of \<^verbatim>\<open>MVM_spesh_usages_count\<close> is an \<^verbatim>\<open>MVMuint32\<close>: \<^verbatim>\<open>count++\<close> wraps
  around at \<open>2 ^ 32\<close>.\<close>

fun count_loop :: "ins_ptr list \<Rightarrow> 32 word \<Rightarrow> 32 word" where
  "count_loop [] count = count"
| "count_loop (cur # nxt) count = count_loop nxt (count + 1)"

definition MVM_spesh_usages_count :: "MVMSpeshGraph \<Rightarrow> MVMSpeshOperand \<Rightarrow> 32 word" where
  "MVM_spesh_usages_count g check =
     count_loop (users (usage (MVM_spesh_get_facts g check))) 0"

section \<open>The consistency checker\<close>

text \<open>The constants \<^verbatim>\<open>MVM_SSA_PHI\<close>, \<^verbatim>\<open>MVM_operand_rw_mask\<close>, \<^verbatim>\<open>MVM_operand_read_reg\<close> and
  \<^verbatim>\<open>MVM_operand_write_reg\<close> are defined in the absent header: the checker takes them as
  a parameter, and with them \<^verbatim>\<open>MVM_spesh_dump\<close>, whose code is not among the sources
  either: the function from a graph to its textual dump.\<close>

record ops_header =
  MVM_SSA_PHI :: nat
  MVM_operand_rw_mask :: nat
  MVM_operand_read_reg :: nat
  MVM_operand_write_reg :: nat

text \<open>The checker returns nothing: it either comes back (\<open>Passed\<close>) or calls
  \<^verbatim>\<open>MVM_oops\<close> (\<open>Raised\<close>).\<close>

datatype verdict = Passed | Raised diagnostic

text \<open>The innermost loop: is there an entry of the chain whose \<^verbatim>\<open>user\<close> is the
  instruction?\<close>

fun find_user :: "ins_ptr list \<Rightarrow> ins_ptr \<Rightarrow> bool" where
  "find_user [] p = False"
| "find_user (use_entry # nxt) p = (if use_entry = p then True else find_user nxt p)"

text \<open>The body of the \<^verbatim>\<open>for\<close> loop, for operand \<open>i\<close> of \<^verbatim>\<open>cur_ins\<close>: \<open>Some\<close> is the
  diagnostic passed to \<^verbatim>\<open>MVM_oops\<close>, \<open>None\<close> is reaching the end of the body.\<close>

definition check_operand ::
  "ops_header \<Rightarrow> (MVMSpeshGraph \<Rightarrow> string) \<Rightarrow> MVMSpeshGraph \<Rightarrow> MVMSpeshBB \<Rightarrow> MVMSpeshIns \<Rightarrow>
     nat \<Rightarrow> diagnostic option" where
  "check_operand h MVM_spesh_dump g cur_bb cur_ins i =
     (let is_phi = (opcode (info cur_ins) = MVM_SSA_PHI h) in
      if (is_phi \<and> i > 0) \<or>
         (\<not> is_phi \<and>
          (info_operands (info cur_ins) i AND MVM_operand_rw_mask h) = MVM_operand_read_reg h)
      then
        (let fs = facts g (reg_orig (operands cur_ins i)) (reg_i (operands cur_ins i));
             found = find_user (users (usage fs)) (addr cur_ins)
         in if \<not> found then
              Some (Diagnostic
                (''Malformed DU chain: reader %s of %d(%d) in BB %d missing'' @ [CHR 0x0A] @ ''%s'')
                [Str (if is_phi then ''PHI'' else name (info cur_ins)),
                 Num (int (reg_orig (operands cur_ins i))),
                 Num (int (reg_i (operands cur_ins i))),
                 Num (int (idx cur_bb)),
                 Str (MVM_spesh_dump g)])
            else None)
      else if (is_phi \<and> i = 0) \<or>
         (\<not> is_phi \<and>
          (info_operands (info cur_ins) i AND MVM_operand_rw_mask h) = MVM_operand_write_reg h)
      then
        (let fs = facts g (reg_orig (operands cur_ins i)) (reg_i (operands cur_ins i))
         in if writer fs \<noteq> Some (addr cur_ins) then
              Some (Diagnostic
                (''Malformed DU chain: writer %s of %d(%d) in BB %d is incorrect'' @ [CHR 0x0A] @ ''%s'')
                [Str (if is_phi then ''PHI'' else name (info cur_ins)),
                 Num (int (reg_orig (operands cur_ins i))),
                 Num (int (reg_i (operands cur_ins i))),
                 Num (int (idx cur_bb)),
                 Str (MVM_spesh_dump g)])
            else None)
      else None)"

text \<open>The \<^verbatim>\<open>for\<close> loop. Its index \<^verbatim>\<open>i\<close> is an \<^verbatim>\<open>MVMuint8\<close>, so \<^verbatim>\<open>i++\<close> takes 255 to
  0; \<^verbatim>\<open>num_operands\<close> is of a type declared in the absent header and the
  specification puts no bound on the number of operands of a PHI, so it is a natural
  number. The loop need not end: \<open>None\<close> is never leaving it.\<close>

partial_function (option) check_operands ::
  "ops_header \<Rightarrow> (MVMSpeshGraph \<Rightarrow> string) \<Rightarrow> MVMSpeshGraph \<Rightarrow> MVMSpeshBB \<Rightarrow> MVMSpeshIns \<Rightarrow>
     8 word \<Rightarrow> verdict option" where
  "check_operands h MVM_spesh_dump g cur_bb cur_ins i =
     (if unat i < num_operands (info cur_ins) then
        (case check_operand h MVM_spesh_dump g cur_bb cur_ins (unat i) of
           Some d \<Rightarrow> Some (Raised d)
         | None \<Rightarrow> check_operands h MVM_spesh_dump g cur_bb cur_ins (i + 1))
      else Some Passed)"

text \<open>The loop over the instructions of a block, and the loop over the blocks.\<close>

fun check_instructions ::
  "ops_header \<Rightarrow> (MVMSpeshGraph \<Rightarrow> string) \<Rightarrow> MVMSpeshGraph \<Rightarrow> MVMSpeshBB \<Rightarrow>
     MVMSpeshIns list \<Rightarrow> verdict option" where
  "check_instructions h MVM_spesh_dump g cur_bb [] = Some Passed"
| "check_instructions h MVM_spesh_dump g cur_bb (cur_ins # nxt) =
     (case check_operands h MVM_spesh_dump g cur_bb cur_ins 0 of
        None \<Rightarrow> None
      | Some (Raised d) \<Rightarrow> Some (Raised d)
      | Some Passed \<Rightarrow> check_instructions h MVM_spesh_dump g cur_bb nxt)"

fun check_blocks ::
  "ops_header \<Rightarrow> (MVMSpeshGraph \<Rightarrow> string) \<Rightarrow> MVMSpeshGraph \<Rightarrow> MVMSpeshBB list \<Rightarrow>
     verdict option" where
  "check_blocks h MVM_spesh_dump g [] = Some Passed"
| "check_blocks h MVM_spesh_dump g (cur_bb # linear_next) =
     (case check_instructions h MVM_spesh_dump g cur_bb (first_ins cur_bb) of
        None \<Rightarrow> None
      | Some (Raised d) \<Rightarrow> Some (Raised d)
      | Some Passed \<Rightarrow> check_blocks h MVM_spesh_dump g linear_next)"

definition MVM_spesh_usages_check ::
  "ops_header \<Rightarrow> (MVMSpeshGraph \<Rightarrow> string) \<Rightarrow> MVMSpeshGraph \<Rightarrow> verdict option" where
  "MVM_spesh_usages_check h MVM_spesh_dump g = check_blocks h MVM_spesh_dump g (entry g)"

section \<open>What the checker is to establish\<close>

text \<open>The classification of operand \<open>i\<close> of an instruction as the checker makes it: a
  read, or else a write. For a PHI the first operand is the write and the others are
  reads; for any other instruction the flag byte of the operand decides.\<close>

definition is_read_operand :: "ops_header \<Rightarrow> MVMSpeshIns \<Rightarrow> nat \<Rightarrow> bool" where
  "is_read_operand h ins i =
     (if opcode (info ins) = MVM_SSA_PHI h then 0 < i
      else (info_operands (info ins) i AND MVM_operand_rw_mask h) = MVM_operand_read_reg h)"

definition is_write_operand :: "ops_header \<Rightarrow> MVMSpeshIns \<Rightarrow> nat \<Rightarrow> bool" where
  "is_write_operand h ins i =
     (\<not> is_read_operand h ins i \<and>
      (if opcode (info ins) = MVM_SSA_PHI h then i = 0
       else (info_operands (info ins) i AND MVM_operand_rw_mask h) = MVM_operand_write_reg h))"

text \<open>Operand \<open>i\<close> of \<open>ins\<close> is in order: if it is a read, the chain of its value has an
  entry for \<open>ins\<close>; if it is a write, the writer of its value is \<open>ins\<close>.\<close>

definition operand_in_order :: "ops_header \<Rightarrow> MVMSpeshGraph \<Rightarrow> MVMSpeshIns \<Rightarrow> nat \<Rightarrow> bool" where
  "operand_in_order h g ins i =
     ((is_read_operand h ins i \<longrightarrow>
         addr ins \<in> set (users (usage (MVM_spesh_get_facts g (operands ins i))))) \<and>
      (is_write_operand h ins i \<longrightarrow>
         writer (MVM_spesh_get_facts g (operands ins i)) = Some (addr ins)))"

text \<open>The diagnostic the checker raises for operand \<open>i\<close> of \<open>ins\<close> in block \<open>bb\<close>.\<close>

definition operand_diagnostic ::
  "ops_header \<Rightarrow> (MVMSpeshGraph \<Rightarrow> string) \<Rightarrow> MVMSpeshGraph \<Rightarrow> MVMSpeshBB \<Rightarrow> MVMSpeshIns \<Rightarrow>
     nat \<Rightarrow> diagnostic" where
  "operand_diagnostic h MVM_spesh_dump g bb ins i =
     Diagnostic
       (if is_read_operand h ins i
        then ''Malformed DU chain: reader %s of %d(%d) in BB %d missing'' @ [CHR 0x0A] @ ''%s''
        else ''Malformed DU chain: writer %s of %d(%d) in BB %d is incorrect'' @ [CHR 0x0A] @ ''%s'')
       [Str (if opcode (info ins) = MVM_SSA_PHI h then ''PHI'' else name (info ins)),
        Num (int (reg_orig (operands ins i))),
        Num (int (reg_i (operands ins i))),
        Num (int (idx bb)),
        Str (MVM_spesh_dump g)]"

text \<open>Every operand of every instruction of every block of the graph is in order.\<close>

definition graph_in_order :: "ops_header \<Rightarrow> MVMSpeshGraph \<Rightarrow> bool" where
  "graph_in_order h g =
     (\<forall>bb\<in>set (entry g). \<forall>ins\<in>set (first_ins bb). \<forall>i<num_operands (info ins).
        operand_in_order h g ins i)"

text \<open>Invariant I2 of the specification, "chain fidelity": for every value and every
  instruction, the chain of the value has as many entries for the instruction as the
  instruction stream has read operands of that instruction naming the value.\<close>

definition read_occurrences :: "ops_header \<Rightarrow> MVMSpeshGraph \<Rightarrow> MVMSpeshOperand \<Rightarrow> ins_ptr \<Rightarrow> nat" where
  "read_occurrences h g v p =
     (\<Sum>bb\<leftarrow>entry g. \<Sum>ins\<leftarrow>first_ins bb.
        if addr ins = p
        then length (filter (\<lambda>i. is_read_operand h ins i \<and> operands ins i = v)
                       [0..<num_operands (info ins)])
        else 0)"

definition chain_fidelity :: "ops_header \<Rightarrow> MVMSpeshGraph \<Rightarrow> bool" where
  "chain_fidelity h g =
     (\<forall>v p. count_list (users (usage (MVM_spesh_get_facts g v))) p = read_occurrences h g v p)"

text \<open>The first diagnostic met when going through a list of operand indices.\<close>

fun first_diagnostic :: "(nat \<Rightarrow> diagnostic option) \<Rightarrow> nat list \<Rightarrow> verdict" where
  "first_diagnostic f [] = Passed"
| "first_diagnostic f (j # js) = (case f j of Some d \<Rightarrow> Raised d | None \<Rightarrow> first_diagnostic f js)"

section \<open>Sequences of calls\<close>

text \<open>\<open>n\<close> calls of \<^verbatim>\<open>MVM_spesh_usages_delete\<close> with the same arguments, one after the
  other; a call that aborts ends the sequence.\<close>

fun delete_times :: "nat \<Rightarrow> MVMSpeshFacts \<Rightarrow> MVMSpeshIns \<Rightarrow> MVMSpeshFacts result" where
  "delete_times 0 fs by_ins = Returned fs"
| "delete_times (Suc n) fs by_ins =
     (case MVM_spesh_usages_delete fs by_ins of
        Returned fs' \<Rightarrow> delete_times n fs' by_ins
      | Aborted e fs' \<Rightarrow> Aborted e fs')"

text \<open>The calls a pass can make on a graph: the four updates and the five queries.\<close>

datatype usage_call =
    Add MVMSpeshOperand MVMSpeshIns
  | Delete MVMSpeshOperand MVMSpeshIns
  | Add_for_deopt MVMSpeshOperand
  | Add_for_handler MVMSpeshOperand
  | Is_used MVMSpeshOperand
  | Is_used_by_deopt MVMSpeshOperand
  | Is_used_by_handler MVMSpeshOperand
  | Used_once MVMSpeshOperand
  | Count MVMSpeshOperand

fun call :: "MVMSpeshGraph \<Rightarrow> usage_call \<Rightarrow> MVMSpeshGraph result" where
  "call g (Add used by_ins) = Returned (MVM_spesh_usages_add_by_reg g used by_ins)"
| "call g (Delete used by_ins) = MVM_spesh_usages_delete_by_reg g used by_ins"
| "call g (Add_for_deopt used) = Returned (MVM_spesh_usages_add_for_deopt_by_reg g used)"
| "call g (Add_for_handler used) = Returned (MVM_spesh_usages_add_for_handler_by_reg g used)"
| "call g (Is_used check) = (let r = MVM_spesh_usages_is_used g check in Returned g)"
| "call g (Is_used_by_deopt check) =
     (let r = MVM_spesh_usages_is_used_by_deopt g check in Returned g)"
| "call g (Is_used_by_handler check) =
     (let r = MVM_spesh_usages_is_used_by_handler g check in Returned g)"
| "call g (Used_once check) = (let r = MVM_spesh_usages_used_once g check in Returned g)"
| "call g (Count check) = (let r = MVM_spesh_usages_count g check in Returned g)"

fun calls :: "MVMSpeshGraph \<Rightarrow> usage_call list \<Rightarrow> MVMSpeshGraph result" where
  "calls g [] = Returned g"
| "calls g (c # cs) =
     (case call g c of
        Returned g' \<Rightarrow> calls g' cs
      | Aborted e g' \<Rightarrow> Aborted e g')"

section \<open>Example data\<close>

text \<open>A facts entry as it is before any call: no writer, empty chain, both flags clear;
  and a graph without blocks whose table holds such entries only.\<close>

definition fresh_facts :: MVMSpeshFacts where
  "fresh_facts =
     \<lparr>writer = None,
      usage = \<lparr>users = [], deopt_required = False, handler_required = False\<rparr>\<rparr>"

definition fresh_graph :: MVMSpeshGraph where
  "fresh_graph = \<lparr>entry = [], facts = (\<lambda>orig i. fresh_facts)\<rparr>"

definition V1 :: MVMSpeshOperand where
  "V1 = \<lparr>reg_orig = 1, reg_i = 0\<rparr>"

definition V2 :: MVMSpeshOperand where
  "V2 = \<lparr>reg_orig = 2, reg_i = 0\<rparr>"

text \<open>\<open>I1\<close> writes \<open>V1\<close>; \<open>I2\<close> reads \<open>V1\<close> in two operands and writes \<open>V2\<close>; \<open>I3\<close> is a
  second instruction with the opcode of \<open>I2\<close>. Flag bytes: 2 marks a written register,
  1 a read register, 0 anything else.\<close>

definition I1 :: MVMSpeshIns where
  "I1 = \<lparr>addr = 101,
         info = \<lparr>opcode = 5, name = ''const_i64'', num_operands = 2,
                 info_operands = (\<lambda>i. if i = 0 then 2 else 0)\<rparr>,
         operands = (\<lambda>i. V1)\<rparr>"

definition I2 :: MVMSpeshIns where
  "I2 = \<lparr>addr = 102,
         info = \<lparr>opcode = 30, name = ''add_i'', num_operands = 3,
                 info_operands = (\<lambda>i. if i = 0 then 2 else 1)\<rparr>,
         operands = (\<lambda>i. if i = 0 then V2 else V1)\<rparr>"

definition I3 :: MVMSpeshIns where
  "I3 = I2\<lparr>addr := 103\<rparr>"

text \<open>The facts of \<open>V1\<close> once \<open>I2\<close>, \<open>I3\<close> and \<open>I2\<close> again have been registered as its
  users.\<close>

definition F1 :: MVMSpeshFacts where
  "F1 = \<lparr>writer = Some 101,
         usage = \<lparr>users = [102, 103, 102], deopt_required = False,
                   handler_required = False\<rparr>\<rparr>"

text \<open>A graph in which the chain of every value has \<open>2 ^ 32 - 1\<close> entries, all of
  them for \<open>I2\<close>.\<close>

definition long_chain_graph :: MVMSpeshGraph where
  "long_chain_graph =
     \<lparr>entry = [],
      facts = (\<lambda>orig i.
        \<lparr>writer = None,
         usage = \<lparr>users = replicate 4294967295 102, deopt_required = False,
                   handler_required = False\<rparr>\<rparr>)\<rparr>"

text \<open>The constants as MoarVM's headers define them, and a stand-in for the dump.\<close>

definition moar_header :: ops_header where
  "moar_header =
     \<lparr>MVM_SSA_PHI = 32767, MVM_operand_rw_mask = 7, MVM_operand_read_reg = 1,
      MVM_operand_write_reg = 2\<rparr>"

definition graph_dump :: "MVMSpeshGraph \<Rightarrow> string" where
  "graph_dump g = ''(dump)''"

text \<open>A facts table with entries for \<open>V1\<close> and \<open>V2\<close>.\<close>

definition two_values :: "MVMSpeshFacts \<Rightarrow> MVMSpeshFacts \<Rightarrow> nat \<Rightarrow> nat \<Rightarrow> MVMSpeshFacts" where
  "two_values f1 f2 =
     (\<lambda>orig i. if orig = 1 \<and> i = 0 then f1 else if orig = 2 \<and> i = 0 then f2 else fresh_facts)"

text \<open>One block with \<open>I1\<close> and \<open>I2\<close>. In \<open>G_ok\<close> the chain of \<open>V1\<close> has the two entries for
  the two reads by \<open>I2\<close>. In \<open>G_one_entry\<close> it has one entry for \<open>I2\<close> and one for \<open>I3\<close>,
  which is in no block. In \<open>G_cleared\<close> it is empty.\<close>

definition B0 :: MVMSpeshBB where
  "B0 = \<lparr>idx = 0, first_ins = [I1, I2]\<rparr>"

definition G_ok :: MVMSpeshGraph where
  "G_ok =
     \<lparr>entry = [B0],
      facts = two_values
        \<lparr>writer = Some 101,
         usage = \<lparr>users = [102, 102], deopt_required = False, handler_required = False\<rparr>\<rparr>
        \<lparr>writer = Some 102,
         usage = \<lparr>users = [], deopt_required = False, handler_required = False\<rparr>\<rparr>\<rparr>"

definition G_one_entry :: MVMSpeshGraph where
  "G_one_entry =
     \<lparr>entry = [B0],
      facts = two_values
        \<lparr>writer = Some 101,
         usage = \<lparr>users = [103, 102], deopt_required = False, handler_required = False\<rparr>\<rparr>
        \<lparr>writer = Some 102,
         usage = \<lparr>users = [], deopt_required = False, handler_required = False\<rparr>\<rparr>\<rparr>"

definition G_cleared :: MVMSpeshGraph where
  "G_cleared =
     \<lparr>entry = [B0],
      facts = two_values
        \<lparr>writer = Some 101,
         usage = \<lparr>users = [], deopt_required = False, handler_required = False\<rparr>\<rparr>
        \<lparr>writer = Some 102,
         usage = \<lparr>users = [], deopt_required = False, handler_required = False\<rparr>\<rparr>\<rparr>"

text \<open>A PHI with 256 operands: it writes \<open>V2\<close> and reads \<open>V1\<close> 255 times; and a graph
  holding it, with the 255 chain entries and the writer that go with it.\<close>

definition PHI256 :: MVMSpeshIns where
  "PHI256 =
     \<lparr>addr = 104,
      info = \<lparr>opcode = 32767, name = ''PHI'', num_operands = 256, info_operands = (\<lambda>i. 0)\<rparr>,
      operands = (\<lambda>i. if i = 0 then V2 else V1)\<rparr>"

definition G_phi256 :: MVMSpeshGraph where
  "G_phi256 =
     \<lparr>entry = [\<lparr>idx = 0, first_ins = [PHI256]\<rparr>],
      facts = two_values
        \<lparr>writer = Some 101,
         usage = \<lparr>users = replicate 255 104, deopt_required = False,
                   handler_required = False\<rparr>\<rparr>
        \<lparr>writer = Some 104,
         usage = \<lparr>users = [], deopt_required = False, handler_required = False\<rparr>\<rparr>\<rparr>"

text \<open>A PHI with 257 operands whose last operand reads a value \<open>V3\<close> that has no chain
  entry at all, the other operands being as in \<open>PHI256\<close>; and a graph holding it.\<close>

definition V3 :: MVMSpeshOperand where
  "V3 = \<lparr>reg_orig = 3, reg_i = 0\<rparr>"

definition PHI257 :: MVMSpeshIns where
  "PHI257 =
     \<lparr>addr = 105,
      info = \<lparr>opcode = 32767, name = ''PHI'', num_operands = 257, info_operands = (\<lambda>i. 0)\<rparr>,
      operands = (\<lambda>i. if i = 0 then V2 else if i = 256 then V3 else V1)\<rparr>"

definition G_phi257 :: MVMSpeshGraph where
  "G_phi257 =
     \<lparr>entry = [\<lparr>idx = 0, first_ins = [PHI257]\<rparr>],
      facts = two_values
        \<lparr>writer = Some 101,
         usage = \<lparr>users = replicate 255 105, deopt_required = False,
                   handler_required = False\<rparr>\<rparr>
        \<lparr>writer = Some 105,
         usage = \<lparr>users = [], deopt_required = False, handler_required = False\<rparr>\<rparr>\<rparr>"

section \<open>Auxiliary facts\<close>

lemma get_put_facts: "MVM_spesh_get_facts (put_facts g used f) used = f"
  by (simp add: MVM_spesh_get_facts_def put_facts_def)

lemma put_get_facts: "put_facts g used (MVM_spesh_get_facts g used) = g"
  by (simp add: MVM_spesh_get_facts_def put_facts_def)

lemma get_put_facts_other:
  "check \<noteq> used \<Longrightarrow> MVM_spesh_get_facts (put_facts g used f) check = MVM_spesh_get_facts g check"
  by (cases check; cases used) (auto simp: MVM_spesh_get_facts_def put_facts_def)

lemma delete_loop_remove1:
  "delete_loop prev us p = (if p \<in> set us then Some (prev @ remove1 p us) else None)"
  by (induction us arbitrary: prev) auto

lemma usages_delete_cases:
  "MVM_spesh_usages_delete fs by_ins =
     (if addr by_ins \<in> set (users (usage fs))
      then Returned (fs\<lparr>usage := (usage fs)\<lparr>users := remove1 (addr by_ins) (users (usage fs))\<rparr>\<rparr>)
      else Aborted (Diagnostic ''Spesh: instruction %s missing from define-use chain''
                      [Str (name (info by_ins))]) fs)"
  by (simp add: MVM_spesh_usages_delete_def delete_loop_remove1)

lemma count_loop_length: "count_loop us c = c + of_nat (length us)"
  by (induction us arbitrary: c) (auto simp: algebra_simps)

section \<open>Liveness queries\<close>

text \<open>
  Claim C1. \<^verbatim>\<open>MVM_spesh_usages_is_used\<close> answers true exactly when the use chain of the
  value is not empty, or it is required for deopt, or it is required for a handler; so
  on an entry with an empty chain and both flags false it answers false.
\<close>

theorem is_used_iff:
  "(MVM_spesh_usages_is_used g check \<longleftrightarrow>
      users (usage (MVM_spesh_get_facts g check)) \<noteq> [] \<or>
      deopt_required (usage (MVM_spesh_get_facts g check)) \<or>
      handler_required (usage (MVM_spesh_get_facts g check))) \<and>
   (users (usage (MVM_spesh_get_facts g check)) = [] \<and>
    \<not> deopt_required (usage (MVM_spesh_get_facts g check)) \<and>
    \<not> handler_required (usage (MVM_spesh_get_facts g check))
      \<longrightarrow> \<not> MVM_spesh_usages_is_used g check)"
  by (auto simp: MVM_spesh_usages_is_used_def Let_def)

theorem is_used_iff_witness:
  "users (usage (MVM_spesh_get_facts fresh_graph V1)) = [] \<and>
   MVM_spesh_usages_is_used fresh_graph V1 = False \<and>
   MVM_spesh_usages_is_used (MVM_spesh_usages_add_by_reg fresh_graph V1 I2) V1 = True"
  using is_used_iff [of fresh_graph V1] is_used_iff [of "MVM_spesh_usages_add_by_reg fresh_graph V1 I2" V1]
  by (simp add: fresh_graph_def fresh_facts_def V1_def I2_def MVM_spesh_get_facts_def
      MVM_spesh_usages_add_by_reg_def MVM_spesh_usages_add_def put_facts_def)

text \<open>
  Claim C2. \<^verbatim>\<open>MVM_spesh_usages_used_once\<close> answers true exactly when neither flag is set
  and the use chain has exactly one entry. Marking a value as required for deopt leaves
  its count unchanged and makes the answer false, whatever the count is (so also when
  the count is 1).
\<close>

theorem used_once_iff:
  "(MVM_spesh_usages_used_once g check \<longleftrightarrow>
      \<not> deopt_required (usage (MVM_spesh_get_facts g check)) \<and>
      \<not> handler_required (usage (MVM_spesh_get_facts g check)) \<and>
      length (users (usage (MVM_spesh_get_facts g check))) = 1) \<and>
   (MVM_spesh_usages_count g check = 1 \<and> MVM_spesh_usages_is_used_by_deopt g check \<longrightarrow>
      \<not> MVM_spesh_usages_used_once g check) \<and>
   MVM_spesh_usages_count (MVM_spesh_usages_add_for_deopt_by_reg g check) check =
     MVM_spesh_usages_count g check \<and>
   \<not> MVM_spesh_usages_used_once (MVM_spesh_usages_add_for_deopt_by_reg g check) check"
  by (auto simp: MVM_spesh_usages_used_once_def MVM_spesh_usages_count_def
      MVM_spesh_usages_is_used_by_deopt_def
      MVM_spesh_usages_add_for_deopt_by_reg_def MVM_spesh_usages_add_for_deopt_def
      get_put_facts Let_def split: list.splits)

theorem used_once_iff_witness:
  "MVM_spesh_usages_used_once (MVM_spesh_usages_add_by_reg fresh_graph V1 I2) V1 \<and>
   MVM_spesh_usages_count (MVM_spesh_usages_add_by_reg fresh_graph V1 I2) V1 = 1 \<and>
   MVM_spesh_usages_count
     (MVM_spesh_usages_add_for_deopt_by_reg (MVM_spesh_usages_add_by_reg fresh_graph V1 I2) V1) V1 = 1 \<and>
   MVM_spesh_usages_is_used_by_deopt
     (MVM_spesh_usages_add_for_deopt_by_reg (MVM_spesh_usages_add_by_reg fresh_graph V1 I2) V1) V1 \<and>
   MVM_spesh_usages_used_once
     (MVM_spesh_usages_add_for_deopt_by_reg (MVM_spesh_usages_add_by_reg fresh_graph V1 I2) V1) V1 = False"
  using used_once_iff [of "MVM_spesh_usages_add_by_reg fresh_graph V1 I2" V1]
    used_once_iff [of "MVM_spesh_usages_add_for_deopt_by_reg
      (MVM_spesh_usages_add_by_reg fresh_graph V1 I2) V1" V1]
  by (simp add: fresh_graph_def fresh_facts_def MVM_spesh_usages_add_by_reg_def
      MVM_spesh_usages_add_def get_put_facts MVM_spesh_usages_count_def MVM_spesh_get_facts_def
      put_facts_def MVM_spesh_usages_is_used_by_deopt_def
      MVM_spesh_usages_add_for_deopt_by_reg_def MVM_spesh_usages_add_for_deopt_def)

section \<open>Removing usages\<close>

lemma put_put_facts: "put_facts (put_facts g used f) used f' = put_facts g used f'"
  by (simp add: put_facts_def)

lemma count_list_remove1_same:
  "p \<in> set us \<Longrightarrow> Suc (count_list (remove1 p us) p) = count_list us p"
  by (induction us) auto

lemma filter_neq_remove1:
  "filter (\<lambda>u. u \<noteq> p) (remove1 p us) = filter (\<lambda>u. u \<noteq> p) us"
  by (induction us) auto

lemma filter_neq_absent: "p \<notin> set us \<Longrightarrow> filter (\<lambda>u. u \<noteq> p) us = us"
  by (induction us) auto

lemma remove1_split_first:
  "p \<in> set us \<Longrightarrow> \<exists>pre post. us = pre @ p # post \<and> p \<notin> set pre \<and> remove1 p us = pre @ post"
proof (induction us)
  case Nil
  then show ?case by simp
next
  case (Cons u us)
  show ?case
  proof (cases "u = p")
    case True
    then have "u # us = [] @ p # us \<and> p \<notin> set [] \<and> remove1 p (u # us) = [] @ us" by simp
    then show ?thesis by blast
  next
    case False
    with Cons obtain pre post where
      "us = pre @ p # post" "p \<notin> set pre" "remove1 p us = pre @ post" by auto
    with False have "u # us = (u # pre) @ p # post \<and> p \<notin> set (u # pre) \<and>
      remove1 p (u # us) = (u # pre) @ post" by auto
    then show ?thesis by blast
  qed
qed

lemma delete_times_within:
  "n \<le> count_list (users (usage fs)) (addr by_ins) \<Longrightarrow>
   \<exists>us. delete_times n fs by_ins = Returned (fs\<lparr>usage := (usage fs)\<lparr>users := us\<rparr>\<rparr>) \<and>
        count_list us (addr by_ins) = count_list (users (usage fs)) (addr by_ins) - n \<and>
        filter (\<lambda>u. u \<noteq> addr by_ins) us = filter (\<lambda>u. u \<noteq> addr by_ins) (users (usage fs))"
proof (induction n arbitrary: fs)
  case 0
  have "fs\<lparr>usage := (usage fs)\<lparr>users := users (usage fs)\<rparr>\<rparr> = fs" by simp
  then show ?case by (intro exI [of _ "users (usage fs)"]) simp
next
  case (Suc n)
  let ?p = "addr by_ins"
  let ?fs' = "fs\<lparr>usage := (usage fs)\<lparr>users := remove1 ?p (users (usage fs))\<rparr>\<rparr>"
  from Suc.prems have mem: "?p \<in> set (users (usage fs))"
    using count_list_0_iff [of "users (usage fs)" ?p] by auto
  have cnt: "Suc (count_list (users (usage ?fs')) ?p) = count_list (users (usage fs)) ?p"
    using count_list_remove1_same [OF mem] by simp
  with Suc.prems have "n \<le> count_list (users (usage ?fs')) ?p" by linarith
  from Suc.IH [OF this] obtain us where
    us: "delete_times n ?fs' by_ins = Returned (?fs'\<lparr>usage := (usage ?fs')\<lparr>users := us\<rparr>\<rparr>)"
        "count_list us ?p = count_list (users (usage ?fs')) ?p - n"
        "filter (\<lambda>u. u \<noteq> ?p) us = filter (\<lambda>u. u \<noteq> ?p) (users (usage ?fs'))"
    by blast
  have step: "delete_times (Suc n) fs by_ins = delete_times n ?fs' by_ins"
    using mem by (simp add: usages_delete_cases)
  have "delete_times (Suc n) fs by_ins = Returned (fs\<lparr>usage := (usage fs)\<lparr>users := us\<rparr>\<rparr>)"
    using step us(1) by simp
  moreover have "count_list us ?p = count_list (users (usage fs)) ?p - Suc n"
    using us(2) cnt by linarith
  moreover have "filter (\<lambda>u. u \<noteq> ?p) us = filter (\<lambda>u. u \<noteq> ?p) (users (usage fs))"
    using us(3) by (simp add: filter_neq_remove1)
  ultimately show ?case by blast
qed

lemma delete_times_all:
  "delete_times (count_list (users (usage fs)) (addr by_ins)) fs by_ins =
     Returned (fs\<lparr>usage := (usage fs)\<lparr>users := filter (\<lambda>u. u \<noteq> addr by_ins) (users (usage fs))\<rparr>\<rparr>)"
proof -
  let ?p = "addr by_ins"
  from delete_times_within [of "count_list (users (usage fs)) ?p" fs by_ins]
  obtain us where
    us: "delete_times (count_list (users (usage fs)) ?p) fs by_ins =
           Returned (fs\<lparr>usage := (usage fs)\<lparr>users := us\<rparr>\<rparr>)"
        "count_list us ?p = 0"
        "filter (\<lambda>u. u \<noteq> ?p) us = filter (\<lambda>u. u \<noteq> ?p) (users (usage fs))"
    by auto
  from us(2) have "?p \<notin> set us" by (simp add: count_list_0_iff)
  then have "filter (\<lambda>u. u \<noteq> ?p) us = us" by (rule filter_neq_absent)
  with us(1,3) show ?thesis by simp
qed

lemma delete_times_Suc_end:
  "delete_times (Suc n) fs by_ins =
     (case delete_times n fs by_ins of
        Returned fs' \<Rightarrow> MVM_spesh_usages_delete fs' by_ins
      | Aborted e fs' \<Rightarrow> Aborted e fs')"
proof (induction n arbitrary: fs)
  case 0
  show ?case by (simp split: result.splits)
next
  case (Suc n)
  show ?case
  proof (cases "MVM_spesh_usages_delete fs by_ins")
    case (Returned fs')
    have "delete_times (Suc (Suc n)) fs by_ins = delete_times (Suc n) fs' by_ins"
      using Returned by simp
    also have "\<dots> = (case delete_times n fs' by_ins of
        Returned fs'' \<Rightarrow> MVM_spesh_usages_delete fs'' by_ins
      | Aborted e fs'' \<Rightarrow> Aborted e fs'')" by (rule Suc.IH)
    also have "delete_times n fs' by_ins = delete_times (Suc n) fs by_ins"
      using Returned by simp
    finally show ?thesis .
  next
    case (Aborted e fs')
    then show ?thesis by simp
  qed
qed

lemma delete_times_one_more:
  "delete_times (Suc (count_list (users (usage fs)) (addr by_ins))) fs by_ins =
     Aborted (Diagnostic ''Spesh: instruction %s missing from define-use chain''
                [Str (name (info by_ins))])
       (fs\<lparr>usage := (usage fs)\<lparr>users := filter (\<lambda>u. u \<noteq> addr by_ins) (users (usage fs))\<rparr>\<rparr>)"
  by (simp only: delete_times_Suc_end delete_times_all) (simp add: usages_delete_cases)

text \<open>
  Claim C3. \<^verbatim>\<open>MVM_spesh_usages_delete\<close> aborts exactly when no entry of the chain holds
  the instruction. Otherwise it removes the first entry holding it, scanning from the
  head, and keeps every other entry in place. When the chain has \<open>N\<close> entries for the
  instruction, any \<open>n \<le> N\<close> calls in a row return, leave \<open>N - n\<close> such entries and
  touch no other entry; \<open>N\<close> calls leave none of them; and call number \<open>N + 1\<close> aborts.
\<close>

theorem usages_delete_first_match:
  "(diagnostic_of (MVM_spesh_usages_delete fs by_ins) \<noteq> None \<longleftrightarrow>
      addr by_ins \<notin> set (users (usage fs))) \<and>
   (addr by_ins \<in> set (users (usage fs)) \<longrightarrow>
      (\<exists>pre post. users (usage fs) = pre @ addr by_ins # post \<and> addr by_ins \<notin> set pre \<and>
         MVM_spesh_usages_delete fs by_ins =
           Returned (fs\<lparr>usage := (usage fs)\<lparr>users := pre @ post\<rparr>\<rparr>))) \<and>
   (\<forall>n. n \<le> count_list (users (usage fs)) (addr by_ins) \<longrightarrow>
      (\<exists>us. delete_times n fs by_ins = Returned (fs\<lparr>usage := (usage fs)\<lparr>users := us\<rparr>\<rparr>) \<and>
         count_list us (addr by_ins) = count_list (users (usage fs)) (addr by_ins) - n \<and>
         filter (\<lambda>u. u \<noteq> addr by_ins) us =
           filter (\<lambda>u. u \<noteq> addr by_ins) (users (usage fs)))) \<and>
   delete_times (count_list (users (usage fs)) (addr by_ins)) fs by_ins =
     Returned (fs\<lparr>usage := (usage fs)
       \<lparr>users := filter (\<lambda>u. u \<noteq> addr by_ins) (users (usage fs))\<rparr>\<rparr>) \<and>
   diagnostic_of (delete_times (Suc (count_list (users (usage fs)) (addr by_ins))) fs by_ins)
     \<noteq> None"
proof (intro conjI allI impI)
  show "diagnostic_of (MVM_spesh_usages_delete fs by_ins) \<noteq> None \<longleftrightarrow>
      addr by_ins \<notin> set (users (usage fs))"
    by (simp add: usages_delete_cases)
next
  assume mem: "addr by_ins \<in> set (users (usage fs))"
  from remove1_split_first [OF mem] obtain pre post where
    "users (usage fs) = pre @ addr by_ins # post" "addr by_ins \<notin> set pre"
    "remove1 (addr by_ins) (users (usage fs)) = pre @ post" by blast
  with mem show "\<exists>pre post. users (usage fs) = pre @ addr by_ins # post \<and>
      addr by_ins \<notin> set pre \<and>
      MVM_spesh_usages_delete fs by_ins = Returned (fs\<lparr>usage := (usage fs)\<lparr>users := pre @ post\<rparr>\<rparr>)"
    by (metis usages_delete_cases)
next
  fix n assume "n \<le> count_list (users (usage fs)) (addr by_ins)"
  then show "\<exists>us. delete_times n fs by_ins = Returned (fs\<lparr>usage := (usage fs)\<lparr>users := us\<rparr>\<rparr>) \<and>
         count_list us (addr by_ins) = count_list (users (usage fs)) (addr by_ins) - n \<and>
         filter (\<lambda>u. u \<noteq> addr by_ins) us =
           filter (\<lambda>u. u \<noteq> addr by_ins) (users (usage fs))"
    by (rule delete_times_within)
next
  show "delete_times (count_list (users (usage fs)) (addr by_ins)) fs by_ins =
     Returned (fs\<lparr>usage := (usage fs)
       \<lparr>users := filter (\<lambda>u. u \<noteq> addr by_ins) (users (usage fs))\<rparr>\<rparr>)"
    by (rule delete_times_all)
next
  show "diagnostic_of (delete_times (Suc (count_list (users (usage fs)) (addr by_ins))) fs by_ins)
     \<noteq> None"
    by (simp only: delete_times_one_more) simp
qed


theorem usages_delete_first_match_witness:
  "addr I2 \<in> set (users (usage F1)) \<and>
   count_list (users (usage F1)) (addr I2) = 2 \<and>
   MVM_spesh_usages_delete F1 I2 = Returned (F1\<lparr>usage := (usage F1)\<lparr>users := [103, 102]\<rparr>\<rparr>) \<and>
   delete_times 2 F1 I2 = Returned (F1\<lparr>usage := (usage F1)\<lparr>users := [103]\<rparr>\<rparr>) \<and>
   diagnostic_of (delete_times 3 F1 I2) \<noteq> None \<and>
   addr I1 \<notin> set (users (usage F1)) \<and>
   diagnostic_of (MVM_spesh_usages_delete F1 I1) \<noteq> None"
  using usages_delete_first_match [of F1 I2] usages_delete_first_match [of F1 I1]
  by (simp add: F1_def I1_def I2_def usages_delete_cases eval_nat_numeral)

section \<open>Adding, then removing\<close>

lemma usages_delete_add:
  "MVM_spesh_usages_delete (MVM_spesh_usages_add fs by_ins) by_ins = Returned fs"
  by (simp add: usages_delete_cases MVM_spesh_usages_add_def)

lemma usages_delete_add_by_reg:
  "MVM_spesh_usages_delete_by_reg (MVM_spesh_usages_add_by_reg g used by_ins) used by_ins =
     Returned g"
  by (simp add: MVM_spesh_usages_delete_by_reg_def MVM_spesh_usages_add_by_reg_def
      get_put_facts usages_delete_add put_put_facts put_get_facts)

text \<open>
  Claim C6. Adding a usage by an instruction and then deleting the usage by the same
  instruction returns, with the facts (and the graph) exactly as before the two calls;
  so the chain has its former length, and if it was empty with both flags clear, the
  value is not used afterwards.
\<close>

theorem add_then_delete_restores:
  "MVM_spesh_usages_delete (MVM_spesh_usages_add fs by_ins) by_ins = Returned fs \<and>
   MVM_spesh_usages_delete_by_reg (MVM_spesh_usages_add_by_reg g used by_ins) used by_ins =
     Returned g \<and>
   length (users (usage (MVM_spesh_get_facts
     (state_of (MVM_spesh_usages_delete_by_reg (MVM_spesh_usages_add_by_reg g used by_ins)
        used by_ins)) used))) =
     length (users (usage (MVM_spesh_get_facts g used))) \<and>
   (users (usage (MVM_spesh_get_facts g used)) = [] \<and>
    \<not> deopt_required (usage (MVM_spesh_get_facts g used)) \<and>
    \<not> handler_required (usage (MVM_spesh_get_facts g used)) \<longrightarrow>
      \<not> MVM_spesh_usages_is_used
          (state_of (MVM_spesh_usages_delete_by_reg (MVM_spesh_usages_add_by_reg g used by_ins)
             used by_ins)) used)"
  by (simp add: usages_delete_add usages_delete_add_by_reg MVM_spesh_usages_is_used_def)

theorem add_then_delete_restores_witness:
  "users (usage (MVM_spesh_get_facts fresh_graph V1)) = [] \<and>
   MVM_spesh_usages_is_used (MVM_spesh_usages_add_by_reg fresh_graph V1 I2) V1 \<and>
   MVM_spesh_usages_is_used
     (state_of (MVM_spesh_usages_delete_by_reg (MVM_spesh_usages_add_by_reg fresh_graph V1 I2)
        V1 I2)) V1 = False"
  using add_then_delete_restores [of fresh_facts I2 fresh_graph V1]
  by (simp add: fresh_graph_def fresh_facts_def MVM_spesh_get_facts_def
      MVM_spesh_usages_add_by_reg_def MVM_spesh_usages_add_def put_facts_def
      MVM_spesh_usages_is_used_def)

section \<open>Counting usages\<close>

lemma usages_count_length:
  "MVM_spesh_usages_count g check = of_nat (length (users (usage (MVM_spesh_get_facts g check))))"
  by (simp add: MVM_spesh_usages_count_def count_loop_length)

lemma users_add_by_reg:
  "users (usage (MVM_spesh_get_facts (MVM_spesh_usages_add_by_reg g used by_ins) used)) =
     addr by_ins # users (usage (MVM_spesh_get_facts g used))"
  by (simp add: MVM_spesh_usages_add_by_reg_def MVM_spesh_usages_add_def get_put_facts)

text \<open>
  Claim C7, as stated, fails where the 32-bit counter wraps: on a chain of \<open>2 ^ 32 - 1\<close>
  entries the count is \<open>2 ^ 32 - 1\<close>; one more registration makes the chain
  \<open>2 ^ 32\<close> entries long and the count 0.
\<close>

theorem usages_count_wraps_counterexample:
  "length (users (usage (MVM_spesh_get_facts long_chain_graph V1))) = 4294967295 \<and>
   MVM_spesh_usages_count long_chain_graph V1 = 4294967295 \<and>
   length (users (usage (MVM_spesh_get_facts
     (MVM_spesh_usages_add_by_reg long_chain_graph V1 I2) V1))) = 4294967296 \<and>
   MVM_spesh_usages_count (MVM_spesh_usages_add_by_reg long_chain_graph V1 I2) V1 = 0"
proof -
  have len: "length (users (usage (MVM_spesh_get_facts long_chain_graph V1))) = 4294967295"
    by (simp add: long_chain_graph_def MVM_spesh_get_facts_def)
  have c1: "MVM_spesh_usages_count long_chain_graph V1 = 4294967295"
    by (simp only: usages_count_length len) simp
  have len2: "length (users (usage (MVM_spesh_get_facts
     (MVM_spesh_usages_add_by_reg long_chain_graph V1 I2) V1))) = 4294967296"
    by (simp only: users_add_by_reg list.size len)
  have c2: "MVM_spesh_usages_count (MVM_spesh_usages_add_by_reg long_chain_graph V1 I2) V1 = 0"
    by (simp only: usages_count_length len2) simp
  from len c1 len2 c2 show ?thesis by blast
qed

text \<open>
  Claim C7, amended. \<^verbatim>\<open>MVM_spesh_usages_add\<close> does not deduplicate: each call puts one
  new entry at the head of the chain, whether or not the instruction is there already,
  and adds one to the count in 32-bit arithmetic. The count is the length of the chain
  modulo \<open>2 ^ 32\<close>, hence the length itself for a chain of fewer than \<open>2 ^ 32\<close>
  entries, and it grows by exactly one per registration while the chain has fewer than
  \<open>2 ^ 32 - 1\<close> entries. The flags do not enter the count. After two registrations on an
  empty chain, by the same instruction or by two, the count is 2.
\<close>

theorem usages_add_no_dedup:
  "users (usage (MVM_spesh_get_facts (MVM_spesh_usages_add_by_reg g used by_ins) used)) =
     addr by_ins # users (usage (MVM_spesh_get_facts g used)) \<and>
   MVM_spesh_usages_count (MVM_spesh_usages_add_by_reg g used by_ins) used =
     MVM_spesh_usages_count g used + 1 \<and>
   unat (MVM_spesh_usages_count g used) =
     length (users (usage (MVM_spesh_get_facts g used))) mod 2 ^ 32 \<and>
   (length (users (usage (MVM_spesh_get_facts g used))) < 2 ^ 32 \<longrightarrow>
      unat (MVM_spesh_usages_count g used) = length (users (usage (MVM_spesh_get_facts g used)))) \<and>
   (length (users (usage (MVM_spesh_get_facts g used))) < 2 ^ 32 - 1 \<longrightarrow>
      unat (MVM_spesh_usages_count (MVM_spesh_usages_add_by_reg g used by_ins) used) =
        unat (MVM_spesh_usages_count g used) + 1) \<and>
   MVM_spesh_usages_count (MVM_spesh_usages_add_for_deopt_by_reg g used) used =
     MVM_spesh_usages_count g used \<and>
   MVM_spesh_usages_count (MVM_spesh_usages_add_for_handler_by_reg g used) used =
     MVM_spesh_usages_count g used \<and>
   (users (usage (MVM_spesh_get_facts g used)) = [] \<longrightarrow>
      MVM_spesh_usages_count
        (MVM_spesh_usages_add_by_reg (MVM_spesh_usages_add_by_reg g used by_ins) used by_ins')
        used = 2)"
proof -
  let ?n = "length (users (usage (MVM_spesh_get_facts g used)))"
  have u: "unat (MVM_spesh_usages_count g used) = ?n mod 2 ^ 32"
    by (simp add: usages_count_length unat_of_nat)
  have a: "MVM_spesh_usages_count (MVM_spesh_usages_add_by_reg g used by_ins) used =
     MVM_spesh_usages_count g used + 1"
    by (simp add: usages_count_length users_add_by_reg)
  have s: "?n < 2 ^ 32 - 1 \<longrightarrow>
      unat (MVM_spesh_usages_count (MVM_spesh_usages_add_by_reg g used by_ins) used) =
        unat (MVM_spesh_usages_count g used) + 1"
  proof
    assume less: "?n < 2 ^ 32 - 1"
    have "unat (MVM_spesh_usages_count (MVM_spesh_usages_add_by_reg g used by_ins) used) =
        Suc ?n mod 2 ^ 32"
      by (simp only: usages_count_length users_add_by_reg list.size unat_of_nat) simp
    also have "\<dots> = Suc ?n" using less by simp
    also have "?n = unat (MVM_spesh_usages_count g used)" using u less by simp
    finally show "unat (MVM_spesh_usages_count (MVM_spesh_usages_add_by_reg g used by_ins) used) =
        unat (MVM_spesh_usages_count g used) + 1" by simp
  qed
  have d: "MVM_spesh_usages_count (MVM_spesh_usages_add_for_deopt_by_reg g used) used =
     MVM_spesh_usages_count g used"
    by (simp add: MVM_spesh_usages_count_def MVM_spesh_usages_add_for_deopt_by_reg_def
        MVM_spesh_usages_add_for_deopt_def get_put_facts)
  have h: "MVM_spesh_usages_count (MVM_spesh_usages_add_for_handler_by_reg g used) used =
     MVM_spesh_usages_count g used"
    by (simp add: MVM_spesh_usages_count_def MVM_spesh_usages_add_for_handler_by_reg_def
        MVM_spesh_usages_add_for_handler_def get_put_facts)
  have t: "users (usage (MVM_spesh_get_facts g used)) = [] \<longrightarrow>
      MVM_spesh_usages_count
        (MVM_spesh_usages_add_by_reg (MVM_spesh_usages_add_by_reg g used by_ins) used by_ins')
        used = 2"
    by (simp add: usages_count_length users_add_by_reg)
  from u a s d h t show ?thesis by (simp add: users_add_by_reg)
qed

theorem usages_add_no_dedup_witness:
  "users (usage (MVM_spesh_get_facts fresh_graph V1)) = [] \<and>
   length (users (usage (MVM_spesh_get_facts (MVM_spesh_usages_add_by_reg fresh_graph V1 I2) V1)))
     < 2 ^ 32 - 1 \<and>
   users (usage (MVM_spesh_get_facts
     (MVM_spesh_usages_add_by_reg (MVM_spesh_usages_add_by_reg fresh_graph V1 I2) V1 I2) V1)) =
     [addr I2, addr I2] \<and>
   MVM_spesh_usages_count
     (MVM_spesh_usages_add_by_reg (MVM_spesh_usages_add_by_reg fresh_graph V1 I2) V1 I2) V1 = 2 \<and>
   MVM_spesh_usages_count
     (MVM_spesh_usages_add_by_reg (MVM_spesh_usages_add_by_reg fresh_graph V1 I2) V1 I3) V1 = 2 \<and>
   unat (MVM_spesh_usages_count
     (MVM_spesh_usages_add_by_reg (MVM_spesh_usages_add_by_reg fresh_graph V1 I2) V1 I2) V1) =
     unat (MVM_spesh_usages_count (MVM_spesh_usages_add_by_reg fresh_graph V1 I2) V1) + 1"
  using usages_add_no_dedup [of fresh_graph V1 I2 I2] usages_add_no_dedup [of fresh_graph V1 I2 I3]
    usages_add_no_dedup [of "MVM_spesh_usages_add_by_reg fresh_graph V1 I2" V1 I2 I2]
  by (simp add: users_add_by_reg) (simp add: fresh_graph_def fresh_facts_def MVM_spesh_get_facts_def)

section \<open>The flags are never cleared\<close>

lemma get_put_facts_if:
  "MVM_spesh_get_facts (put_facts g used f) v =
     (if reg_orig v = reg_orig used \<and> reg_i v = reg_i used then f else MVM_spesh_get_facts g v)"
  by (simp add: MVM_spesh_get_facts_def put_facts_def)

lemma get_facts_cong:
  "reg_orig v = reg_orig used \<Longrightarrow> reg_i v = reg_i used \<Longrightarrow>
   MVM_spesh_get_facts g v = MVM_spesh_get_facts g used"
  by (simp add: MVM_spesh_get_facts_def)

lemma flags_usages_delete:
  "deopt_required (usage (state_of (MVM_spesh_usages_delete fs by_ins))) = deopt_required (usage fs) \<and>
   handler_required (usage (state_of (MVM_spesh_usages_delete fs by_ins))) =
     handler_required (usage fs)"
  by (simp add: usages_delete_cases)

lemma state_of_delete_by_reg:
  "state_of (MVM_spesh_usages_delete_by_reg g used by_ins) =
     put_facts g used (state_of (MVM_spesh_usages_delete (MVM_spesh_get_facts g used) by_ins))"
  by (simp add: MVM_spesh_usages_delete_by_reg_def split: result.splits)

lemma call_keeps_flags:
  "(deopt_required (usage (MVM_spesh_get_facts g v)) \<longrightarrow>
      deopt_required (usage (MVM_spesh_get_facts (state_of (call g c)) v))) \<and>
   (handler_required (usage (MVM_spesh_get_facts g v)) \<longrightarrow>
      handler_required (usage (MVM_spesh_get_facts (state_of (call g c)) v)))"
proof (cases c)
  case (Add used by_ins)
  then show ?thesis
    by (auto simp: MVM_spesh_usages_add_by_reg_def MVM_spesh_usages_add_def get_put_facts_if
        dest: get_facts_cong [of v used g])
next
  case (Delete used by_ins)
  then show ?thesis
    by (auto simp: state_of_delete_by_reg get_put_facts_if flags_usages_delete
        dest: get_facts_cong [of v used g])
next
  case (Add_for_deopt used)
  then show ?thesis
    by (auto simp: MVM_spesh_usages_add_for_deopt_by_reg_def MVM_spesh_usages_add_for_deopt_def
        get_put_facts_if dest: get_facts_cong [of v used g])
next
  case (Add_for_handler used)
  then show ?thesis
    by (auto simp: MVM_spesh_usages_add_for_handler_by_reg_def
        MVM_spesh_usages_add_for_handler_def get_put_facts_if dest: get_facts_cong [of v used g])
qed simp_all

lemma state_of_calls_Cons: "state_of (calls g (c # cs)) =
  (case call g c of Returned g' \<Rightarrow> state_of (calls g' cs) | Aborted e g' \<Rightarrow> g')"
  by (simp split: result.splits)

lemma calls_keep_flags:
  "(deopt_required (usage (MVM_spesh_get_facts g v)) \<longrightarrow>
      deopt_required (usage (MVM_spesh_get_facts (state_of (calls g cs)) v))) \<and>
   (handler_required (usage (MVM_spesh_get_facts g v)) \<longrightarrow>
      handler_required (usage (MVM_spesh_get_facts (state_of (calls g cs)) v)))"
proof (induction cs arbitrary: g)
  case Nil
  show ?case by simp
next
  case (Cons c cs)
  show ?case
  proof (cases "call g c")
    case (Returned g')
    with call_keeps_flags [of g v c] Cons.IH [of g'] show ?thesis by simp
  next
    case (Aborted e g')
    with call_keeps_flags [of g v c] show ?thesis by simp
  qed
qed

text \<open>
  Claim C8. \<^verbatim>\<open>MVM_spesh_usages_add_for_deopt\<close> and \<^verbatim>\<open>MVM_spesh_usages_add_for_handler\<close>
  set their flag; calling them twice is calling them once, and on a flag that is set
  already they change nothing at all. No sequence of calls of this file (adding,
  deleting, marking, querying; up to the end of the sequence or the call that aborts)
  clears a flag that was set before it.
\<close>

theorem flags_set_and_monotonic:
  "deopt_required (usage (MVM_spesh_usages_add_for_deopt fs)) \<and>
   handler_required (usage (MVM_spesh_usages_add_for_handler fs)) \<and>
   MVM_spesh_usages_add_for_deopt (MVM_spesh_usages_add_for_deopt fs) =
     MVM_spesh_usages_add_for_deopt fs \<and>
   MVM_spesh_usages_add_for_handler (MVM_spesh_usages_add_for_handler fs) =
     MVM_spesh_usages_add_for_handler fs \<and>
   (deopt_required (usage fs) \<longrightarrow> MVM_spesh_usages_add_for_deopt fs = fs) \<and>
   (handler_required (usage fs) \<longrightarrow> MVM_spesh_usages_add_for_handler fs = fs) \<and>
   deopt_required (usage (MVM_spesh_usages_add fs by_ins)) = deopt_required (usage fs) \<and>
   handler_required (usage (MVM_spesh_usages_add fs by_ins)) = handler_required (usage fs) \<and>
   deopt_required (usage (state_of (MVM_spesh_usages_delete fs by_ins))) =
     deopt_required (usage fs) \<and>
   handler_required (usage (state_of (MVM_spesh_usages_delete fs by_ins))) =
     handler_required (usage fs) \<and>
   deopt_required (usage (MVM_spesh_usages_add_for_handler fs)) = deopt_required (usage fs) \<and>
   handler_required (usage (MVM_spesh_usages_add_for_deopt fs)) = handler_required (usage fs) \<and>
   MVM_spesh_usages_is_used_by_deopt (MVM_spesh_usages_add_for_deopt_by_reg g v) v \<and>
   MVM_spesh_usages_is_used_by_handler (MVM_spesh_usages_add_for_handler_by_reg g v) v \<and>
   (MVM_spesh_usages_is_used_by_deopt g v \<longrightarrow> MVM_spesh_usages_add_for_deopt_by_reg g v = g) \<and>
   (MVM_spesh_usages_is_used_by_handler g v \<longrightarrow>
      MVM_spesh_usages_add_for_handler_by_reg g v = g) \<and>
   (MVM_spesh_usages_is_used_by_deopt g v \<longrightarrow>
      MVM_spesh_usages_is_used_by_deopt (state_of (calls g cs)) v) \<and>
   (MVM_spesh_usages_is_used_by_handler g v \<longrightarrow>
      MVM_spesh_usages_is_used_by_handler (state_of (calls g cs)) v)"
proof -
  have d: "deopt_required (usage fs) \<longrightarrow> MVM_spesh_usages_add_for_deopt fs = fs" for fs
    by (simp add: MVM_spesh_usages_add_for_deopt_def)
  have h: "handler_required (usage fs) \<longrightarrow> MVM_spesh_usages_add_for_handler fs = fs" for fs
    by (simp add: MVM_spesh_usages_add_for_handler_def)
  have dg: "MVM_spesh_usages_is_used_by_deopt g v \<longrightarrow> MVM_spesh_usages_add_for_deopt_by_reg g v = g"
    using d [of "MVM_spesh_get_facts g v"]
    by (simp add: MVM_spesh_usages_is_used_by_deopt_def MVM_spesh_usages_add_for_deopt_by_reg_def
        put_get_facts)
  have hg: "MVM_spesh_usages_is_used_by_handler g v \<longrightarrow>
      MVM_spesh_usages_add_for_handler_by_reg g v = g"
    using h [of "MVM_spesh_get_facts g v"]
    by (simp add: MVM_spesh_usages_is_used_by_handler_def
        MVM_spesh_usages_add_for_handler_by_reg_def put_get_facts)
  have m: "(MVM_spesh_usages_is_used_by_deopt g v \<longrightarrow>
      MVM_spesh_usages_is_used_by_deopt (state_of (calls g cs)) v) \<and>
   (MVM_spesh_usages_is_used_by_handler g v \<longrightarrow>
      MVM_spesh_usages_is_used_by_handler (state_of (calls g cs)) v)"
    using calls_keep_flags [of g v cs]
    by (simp add: MVM_spesh_usages_is_used_by_deopt_def MVM_spesh_usages_is_used_by_handler_def)
  have s: "deopt_required (usage (MVM_spesh_usages_add_for_deopt fs)) \<and>
   handler_required (usage (MVM_spesh_usages_add_for_handler fs)) \<and>
   MVM_spesh_usages_add_for_deopt (MVM_spesh_usages_add_for_deopt fs) =
     MVM_spesh_usages_add_for_deopt fs \<and>
   MVM_spesh_usages_add_for_handler (MVM_spesh_usages_add_for_handler fs) =
     MVM_spesh_usages_add_for_handler fs"
    by (simp add: MVM_spesh_usages_add_for_deopt_def MVM_spesh_usages_add_for_handler_def)
  have q: "MVM_spesh_usages_is_used_by_deopt (MVM_spesh_usages_add_for_deopt_by_reg g v) v \<and>
   MVM_spesh_usages_is_used_by_handler (MVM_spesh_usages_add_for_handler_by_reg g v) v"
    by (simp add: MVM_spesh_usages_is_used_by_deopt_def MVM_spesh_usages_is_used_by_handler_def
        MVM_spesh_usages_add_for_deopt_by_reg_def MVM_spesh_usages_add_for_handler_by_reg_def
        MVM_spesh_usages_add_for_deopt_def MVM_spesh_usages_add_for_handler_def get_put_facts)
  have k: "deopt_required (usage (MVM_spesh_usages_add fs by_ins)) = deopt_required (usage fs) \<and>
   handler_required (usage (MVM_spesh_usages_add fs by_ins)) = handler_required (usage fs) \<and>
   deopt_required (usage (MVM_spesh_usages_add_for_handler fs)) = deopt_required (usage fs) \<and>
   handler_required (usage (MVM_spesh_usages_add_for_deopt fs)) = handler_required (usage fs)"
    by (simp add: MVM_spesh_usages_add_def MVM_spesh_usages_add_for_deopt_def
        MVM_spesh_usages_add_for_handler_def)
  from s d [of fs] h [of fs] q dg hg m k flags_usages_delete [of fs by_ins] show ?thesis
    by blast
qed

theorem flags_set_and_monotonic_witness:
  "MVM_spesh_usages_is_used_by_deopt (MVM_spesh_usages_add_for_deopt_by_reg fresh_graph V2) V2 \<and>
   MVM_spesh_usages_is_used (MVM_spesh_usages_add_for_deopt_by_reg fresh_graph V2) V2 \<and>
   MVM_spesh_usages_count (MVM_spesh_usages_add_for_deopt_by_reg fresh_graph V2) V2 = 0 \<and>
   MVM_spesh_usages_add_for_deopt_by_reg (MVM_spesh_usages_add_for_deopt_by_reg fresh_graph V2) V2 =
     MVM_spesh_usages_add_for_deopt_by_reg fresh_graph V2 \<and>
   MVM_spesh_usages_is_used_by_deopt
     (state_of (calls (MVM_spesh_usages_add_for_deopt_by_reg fresh_graph V2)
        [Add V2 I3, Add_for_handler V2, Delete V2 I3, Count V2, Delete V2 I3])) V2 \<and>
   diagnostic_of (calls (MVM_spesh_usages_add_for_deopt_by_reg fresh_graph V2)
        [Add V2 I3, Add_for_handler V2, Delete V2 I3, Count V2, Delete V2 I3]) \<noteq> None"
  using flags_set_and_monotonic [of fresh_facts I3
      "MVM_spesh_usages_add_for_deopt_by_reg fresh_graph V2" V2
      "[Add V2 I3, Add_for_handler V2, Delete V2 I3, Count V2, Delete V2 I3]"]
  by (simp add: fresh_graph_def fresh_facts_def V2_def I3_def I2_def MVM_spesh_get_facts_def
      put_facts_def MVM_spesh_usages_add_for_deopt_by_reg_def MVM_spesh_usages_add_for_deopt_def
      MVM_spesh_usages_is_used_by_deopt_def MVM_spesh_usages_is_used_def
      MVM_spesh_usages_count_def MVM_spesh_usages_add_by_reg_def MVM_spesh_usages_add_def
      MVM_spesh_usages_add_for_handler_by_reg_def MVM_spesh_usages_add_for_handler_def
      MVM_spesh_usages_delete_by_reg_def usages_delete_cases)

section \<open>The diagnostic and the state of a failed removal\<close>

text \<open>
  Claim C9, as stated, fails: deleting a usage that is not there gives the same
  diagnostic for two different values (\<open>V1\<close>, \<open>V2\<close>), and for two different instructions
  with the same opcode (\<open>I2\<close>, \<open>I3\<close>). Its only argument is the opcode's name.
\<close>

theorem delete_diagnostic_omits_value_counterexample:
  "V1 \<noteq> V2 \<and> addr I2 \<noteq> addr I3 \<and>
   MVM_spesh_usages_delete_by_reg fresh_graph V1 I2 =
     Aborted (Diagnostic ''Spesh: instruction %s missing from define-use chain'' [Str ''add_i''])
       fresh_graph \<and>
   MVM_spesh_usages_delete_by_reg fresh_graph V2 I2 =
     Aborted (Diagnostic ''Spesh: instruction %s missing from define-use chain'' [Str ''add_i''])
       fresh_graph \<and>
   MVM_spesh_usages_delete_by_reg fresh_graph V2 I3 =
     Aborted (Diagnostic ''Spesh: instruction %s missing from define-use chain'' [Str ''add_i''])
       fresh_graph"
  by (simp add: V1_def V2_def I2_def I3_def MVM_spesh_usages_delete_by_reg_def
      usages_delete_cases put_get_facts)
    (simp add: fresh_graph_def fresh_facts_def MVM_spesh_get_facts_def)

text \<open>
  Claim C9, amended. When \<^verbatim>\<open>MVM_spesh_usages_delete\<close> (or its by-operand form) finds no
  matching entry, its diagnostic is the message "Spesh: instruction %s missing from
  define-use chain" with the name of the instruction's opcode for \<open>%s\<close>, and nothing
  else: neither the value nor a dump of the graph.
\<close>

theorem delete_diagnostic_contents:
  "(addr by_ins \<notin> set (users (usage fs)) \<longrightarrow>
      diagnostic_of (MVM_spesh_usages_delete fs by_ins) =
        Some (Diagnostic ''Spesh: instruction %s missing from define-use chain''
                [Str (name (info by_ins))])) \<and>
   (addr by_ins \<notin> set (users (usage (MVM_spesh_get_facts g used))) \<longrightarrow>
      diagnostic_of (MVM_spesh_usages_delete_by_reg g used by_ins) =
        Some (Diagnostic ''Spesh: instruction %s missing from define-use chain''
                [Str (name (info by_ins))]))"
  by (simp add: MVM_spesh_usages_delete_by_reg_def usages_delete_cases)

theorem delete_diagnostic_contents_witness:
  "addr I1 \<notin> set (users (usage F1)) \<and>
   diagnostic_of (MVM_spesh_usages_delete F1 I1) =
     Some (Diagnostic ''Spesh: instruction %s missing from define-use chain'' [Str ''const_i64''])"
  using delete_diagnostic_contents [of I1 F1 fresh_graph V1]
  by (simp add: I1_def F1_def)

text \<open>
  Claim C10. When \<^verbatim>\<open>MVM_spesh_usages_delete\<close> aborts because no entry matches, the facts
  are as they were before the call: chain, flags and writer; and so is the whole graph
  for the by-operand form.
\<close>

theorem delete_failure_leaves_state:
  "(addr by_ins \<notin> set (users (usage fs)) \<longrightarrow>
      diagnostic_of (MVM_spesh_usages_delete fs by_ins) \<noteq> None \<and>
      state_of (MVM_spesh_usages_delete fs by_ins) = fs) \<and>
   (addr by_ins \<notin> set (users (usage (MVM_spesh_get_facts g used))) \<longrightarrow>
      diagnostic_of (MVM_spesh_usages_delete_by_reg g used by_ins) \<noteq> None \<and>
      state_of (MVM_spesh_usages_delete_by_reg g used by_ins) = g)"
  by (simp add: MVM_spesh_usages_delete_by_reg_def usages_delete_cases put_get_facts)

theorem delete_failure_leaves_state_witness:
  "addr I1 \<notin> set (users (usage F1)) \<and>
   diagnostic_of (MVM_spesh_usages_delete F1 I1) \<noteq> None \<and>
   state_of (MVM_spesh_usages_delete F1 I1) = F1 \<and>
   users (usage (state_of (MVM_spesh_usages_delete F1 I1))) = [102, 103, 102] \<and>
   writer (state_of (MVM_spesh_usages_delete F1 I1)) = Some 101 \<and>
   addr I1 \<notin> set (users (usage (MVM_spesh_get_facts fresh_graph V1))) \<and>
   state_of (MVM_spesh_usages_delete_by_reg fresh_graph V1 I1) = fresh_graph"
  using delete_failure_leaves_state [of I1 F1 fresh_graph V1]
  by (simp add: I1_def F1_def) (simp add: fresh_graph_def fresh_facts_def MVM_spesh_get_facts_def)

section \<open>The loops of the checker\<close>

lemma find_user_set: "find_user us p \<longleftrightarrow> p \<in> set us"
  by (induction us) auto

lemma check_operand_None:
  "check_operand h dump g bb ins i = None \<longleftrightarrow> operand_in_order h g ins i"
  by (auto simp: check_operand_def operand_in_order_def is_read_operand_def
      is_write_operand_def MVM_spesh_get_facts_def find_user_set Let_def)

lemma check_operand_Some:
  "check_operand h dump g bb ins i = Some d \<Longrightarrow> d = operand_diagnostic h dump g bb ins i"
  by (auto simp: check_operand_def operand_diagnostic_def is_read_operand_def Let_def
      split: if_splits)

lemma unat_succ_u8: "unat (i :: 8 word) < 255 \<Longrightarrow> unat (i + 1) = Suc (unat i)"
  by (simp add: unat_word_ariths)

lemma check_operands_bounded:
  "num_operands (info ins) \<le> 255 \<Longrightarrow>
   check_operands h dump g bb ins i =
     Some (first_diagnostic (check_operand h dump g bb ins) [unat i..<num_operands (info ins)])"
proof (induction "num_operands (info ins) - unat i" arbitrary: i)
  case 0
  then have "\<not> unat i < num_operands (info ins)" by simp
  then show ?case by (subst check_operands.simps) simp
next
  case (Suc k)
  then have less: "unat i < num_operands (info ins)" by simp
  with Suc.prems have "unat i < 255" by simp
  then have succ: "unat (i + 1) = Suc (unat i)" by (rule unat_succ_u8)
  with Suc.hyps(2) have "k = num_operands (info ins) - unat (i + 1)" by simp
  from Suc.hyps(1) [OF this Suc.prems]
  have IH: "check_operands h dump g bb ins (i + 1) =
     Some (first_diagnostic (check_operand h dump g bb ins) [Suc (unat i)..<num_operands (info ins)])"
    by (simp only: succ)
  have upt: "[unat i..<num_operands (info ins)] = unat i # [Suc (unat i)..<num_operands (info ins)]"
    using less by (rule upt_conv_Cons)
  show ?case
    by (subst check_operands.simps) (simp add: less IH upt split: option.splits)
qed


lemma check_operands_result:
  "check_operands h dump g bb ins i = Some y \<Longrightarrow>
   (case y of
      Raised d \<Rightarrow> \<exists>j<num_operands (info ins). check_operand h dump g bb ins j = Some d
    | Passed \<Rightarrow> num_operands (info ins) \<le> 255 \<and>
        (\<forall>j. unat i \<le> j \<and> j < num_operands (info ins) \<longrightarrow>
           check_operand h dump g bb ins j = None))"
proof (induction rule: check_operands.raw_induct [rotated 1, consumes 1])
  case (1 rec h dump g bb ins i y)
  show ?case
  proof (cases "unat i < num_operands (info ins)")
    case False
    with 1(2) have y: "y = Passed" by simp
    have "unat i < 2 ^ LENGTH(8)" by (rule unsigned_less)
    then have "unat i \<le> 255" by simp
    with False y show ?thesis by auto
  next
    case less: True
    show ?thesis
    proof (cases "check_operand h dump g bb ins (unat i)")
      case (Some d)
      with less 1(2) have "y = Raised d" by simp
      with less Some show ?thesis by auto
    next
      case None
      with less 1(2) have r: "rec h dump g bb ins (i + 1) = Some y" by simp
      note IH = 1(1) [OF r]
      show ?thesis
      proof (cases y)
        case (Raised d)
        with IH show ?thesis by simp
      next
        case Passed
        with IH have small: "num_operands (info ins) \<le> 255"
          and rest: "\<forall>j. unat (i + 1) \<le> j \<and> j < num_operands (info ins) \<longrightarrow>
             check_operand h dump g bb ins j = None" by simp_all
        from less small have "unat i < 255" by simp
        then have succ: "unat (i + 1) = Suc (unat i)" by (rule unat_succ_u8)
        have "check_operand h dump g bb ins j = None"
          if "unat i \<le> j" "j < num_operands (info ins)" for j
        proof (cases "j = unat i")
          case True
          with None show ?thesis by simp
        next
          case False
          with that succ have "unat (i + 1) \<le> j" by simp
          with rest that show ?thesis by simp
        qed
        with Passed small show ?thesis by simp
      qed
    qed
  qed
qed


lemma check_operands_from_0:
  "check_operands h dump g bb ins 0 = Some y \<Longrightarrow>
   (case y of
      Raised d \<Rightarrow> \<exists>j<num_operands (info ins). check_operand h dump g bb ins j = Some d
    | Passed \<Rightarrow> num_operands (info ins) \<le> 255 \<and>
        (\<forall>j<num_operands (info ins). check_operand h dump g bb ins j = None))"
  using check_operands_result [of h dump g bb ins 0 y] by (cases y) simp_all

lemma check_instructions_result:
  "check_instructions h dump g bb inss = Some y \<Longrightarrow>
   (case y of
      Raised d \<Rightarrow> \<exists>ins\<in>set inss. \<exists>j<num_operands (info ins).
        check_operand h dump g bb ins j = Some d
    | Passed \<Rightarrow> \<forall>ins\<in>set inss. num_operands (info ins) \<le> 255 \<and>
        (\<forall>j<num_operands (info ins). check_operand h dump g bb ins j = None))"
proof (induction inss)
  case Nil
  then show ?case by auto
next
  case (Cons ins inss)
  show ?case
  proof (cases "check_operands h dump g bb ins 0")
    case None
    with Cons.prems show ?thesis by simp
  next
    case (Some v)
    note first = check_operands_from_0 [OF Some]
    show ?thesis
    proof (cases v)
      case (Raised d)
      with Some Cons.prems have "y = Raised d" by simp
      with first Raised show ?thesis by auto
    next
      case Passed
      with Some Cons.prems have "check_instructions h dump g bb inss = Some y" by simp
      from Cons.IH [OF this] first Passed show ?thesis by (cases y) auto
    qed
  qed
qed

lemma check_blocks_result:
  "check_blocks h dump g bbs = Some y \<Longrightarrow>
   (case y of
      Raised d \<Rightarrow> \<exists>bb\<in>set bbs. \<exists>ins\<in>set (first_ins bb). \<exists>j<num_operands (info ins).
        check_operand h dump g bb ins j = Some d
    | Passed \<Rightarrow> \<forall>bb\<in>set bbs. \<forall>ins\<in>set (first_ins bb). num_operands (info ins) \<le> 255 \<and>
        (\<forall>j<num_operands (info ins). check_operand h dump g bb ins j = None))"
proof (induction bbs)
  case Nil
  then show ?case by auto
next
  case (Cons bb bbs)
  show ?case
  proof (cases "check_instructions h dump g bb (first_ins bb)")
    case None
    with Cons.prems show ?thesis by simp
  next
    case (Some v)
    note first = check_instructions_result [OF Some]
    show ?thesis
    proof (cases v)
      case (Raised d)
      with Some Cons.prems have "y = Raised d" by simp
      with first Raised show ?thesis by auto
    next
      case Passed
      with Some Cons.prems have "check_blocks h dump g bbs = Some y" by simp
      from Cons.IH [OF this] first Passed show ?thesis by (cases y) auto
    qed
  qed
qed

lemma check_instructions_returns:
  "\<forall>ins\<in>set inss. num_operands (info ins) \<le> 255 \<Longrightarrow>
   \<exists>y. check_instructions h dump g bb inss = Some y"
proof (induction inss)
  case Nil
  show ?case by simp
next
  case (Cons ins inss)
  then have "num_operands (info ins) \<le> 255" by simp
  from check_operands_bounded [OF this, of h dump g bb 0] Cons show ?case
    by (cases "first_diagnostic (check_operand h dump g bb ins) [unat (0 :: 8 word)..<num_operands (info ins)]")
      auto
qed

lemma check_blocks_returns:
  "\<forall>bb\<in>set bbs. \<forall>ins\<in>set (first_ins bb). num_operands (info ins) \<le> 255 \<Longrightarrow>
   \<exists>y. check_blocks h dump g bbs = Some y"
proof (induction bbs)
  case Nil
  show ?case by simp
next
  case (Cons bb bbs)
  then have "\<forall>ins\<in>set (first_ins bb). num_operands (info ins) \<le> 255" by simp
  from check_instructions_returns [OF this, of h dump g bb] obtain v where
    v: "check_instructions h dump g bb (first_ins bb) = Some v" by blast
  from Cons have "\<exists>y. check_blocks h dump g bbs = Some y" by simp
  with v show ?case by (cases v) auto
qed

lemma usages_check_Passed_iff:
  "MVM_spesh_usages_check h dump g = Some Passed \<longleftrightarrow>
     (\<forall>bb\<in>set (entry g). \<forall>ins\<in>set (first_ins bb). num_operands (info ins) \<le> 255 \<and>
        (\<forall>i<num_operands (info ins). operand_in_order h g ins i))"
proof
  assume "MVM_spesh_usages_check h dump g = Some Passed"
  then have "check_blocks h dump g (entry g) = Some Passed"
    by (simp add: MVM_spesh_usages_check_def)
  from check_blocks_result [OF this] show
    "\<forall>bb\<in>set (entry g). \<forall>ins\<in>set (first_ins bb). num_operands (info ins) \<le> 255 \<and>
        (\<forall>i<num_operands (info ins). operand_in_order h g ins i)"
    by (simp add: check_operand_None)
next
  assume ok: "\<forall>bb\<in>set (entry g). \<forall>ins\<in>set (first_ins bb). num_operands (info ins) \<le> 255 \<and>
        (\<forall>i<num_operands (info ins). operand_in_order h g ins i)"
  then have "\<forall>bb\<in>set (entry g). \<forall>ins\<in>set (first_ins bb). num_operands (info ins) \<le> 255"
    by blast
  from check_blocks_returns [OF this, of h dump g] obtain y where
    y: "check_blocks h dump g (entry g) = Some y" by blast
  have "y = Passed"
  proof (cases y)
    case Passed
    then show ?thesis .
  next
    case (Raised d)
    with check_blocks_result [OF y] obtain bb ins j where
      "bb \<in> set (entry g)" "ins \<in> set (first_ins bb)" "j < num_operands (info ins)"
      "check_operand h dump g bb ins j = Some d" by auto
    moreover from this ok have "operand_in_order h g ins j" by blast
    ultimately show ?thesis using check_operand_None [of h dump g bb ins j] by simp
  qed
  with y show "MVM_spesh_usages_check h dump g = Some Passed"
    by (simp add: MVM_spesh_usages_check_def)
qed

lemma usages_check_Raised:
  "MVM_spesh_usages_check h dump g = Some (Raised d) \<Longrightarrow>
   \<exists>bb\<in>set (entry g). \<exists>ins\<in>set (first_ins bb). \<exists>i<num_operands (info ins).
     \<not> operand_in_order h g ins i \<and> d = operand_diagnostic h dump g bb ins i"
proof -
  assume "MVM_spesh_usages_check h dump g = Some (Raised d)"
  then have "check_blocks h dump g (entry g) = Some (Raised d)"
    by (simp add: MVM_spesh_usages_check_def)
  from check_blocks_result [OF this] obtain bb ins j where
    *: "bb \<in> set (entry g)" "ins \<in> set (first_ins bb)" "j < num_operands (info ins)"
    and d: "check_operand h dump g bb ins j = Some d" by auto
  from d have "\<not> operand_in_order h g ins j"
    using check_operand_None [of h dump g bb ins j] by simp
  moreover from d have "d = operand_diagnostic h dump g bb ins j" by (rule check_operand_Some)
  ultimately show ?thesis using * by blast
qed

lemma usages_check_returns:
  "\<forall>bb\<in>set (entry g). \<forall>ins\<in>set (first_ins bb). num_operands (info ins) \<le> 255 \<Longrightarrow>
   \<exists>y. MVM_spesh_usages_check h dump g = Some y"
  by (simp add: MVM_spesh_usages_check_def check_blocks_returns)


lemma usages_check_never_returns:
  assumes ok: "graph_in_order h g"
    and wide: "bb \<in> set (entry g)" "ins \<in> set (first_ins bb)" "255 < num_operands (info ins)"
  shows "MVM_spesh_usages_check h dump g = None"
proof (cases "MVM_spesh_usages_check h dump g")
  case None
  then show ?thesis .
next
  case (Some y)
  show ?thesis
  proof (cases y)
    case Passed
    with Some have "MVM_spesh_usages_check h dump g = Some Passed" by simp
    then have "num_operands (info ins) \<le> 255"
      using wide(1,2) by (simp add: usages_check_Passed_iff)
    with wide(3) show ?thesis by simp
  next
    case (Raised d)
    with Some have "MVM_spesh_usages_check h dump g = Some (Raised d)" by simp
    from usages_check_Raised [OF this] ok show ?thesis
      by (auto simp: graph_in_order_def)
  qed
qed

subsection \<open>Beyond the range of the operand index\<close>

lemma first_diagnostic_Passed_iff:
  "first_diagnostic f js = Passed \<longleftrightarrow> (\<forall>j\<in>set js. f j = None)"
  by (induction js) (auto split: option.splits)

lemma check_operands_spins:
  "check_operands h dump g bb ins i = Some y \<Longrightarrow>
   255 < num_operands (info ins) \<and> (\<forall>j<256. check_operand h dump g bb ins j = None) \<longrightarrow> False"
proof (induction rule: check_operands.raw_induct [rotated 1, consumes 1])
  case (1 rec h dump g bb ins i y)
  show ?case
  proof
    assume a: "255 < num_operands (info ins) \<and> (\<forall>j<256. check_operand h dump g bb ins j = None)"
    have "unat i < 2 ^ LENGTH(8)" by (rule unsigned_less)
    then have small: "unat i < 256" by simp
    with a have less: "unat i < num_operands (info ins)"
      and none: "check_operand h dump g bb ins (unat i) = None" by simp_all
    with 1(2) have "rec h dump g bb ins (i + 1) = Some y" by simp
    from 1(1) [OF this] a show False by blast
  qed
qed

lemma check_operands_wide_step:
  "255 < num_operands (info ins) \<Longrightarrow>
   check_operands h dump g bb ins i =
     (case first_diagnostic (check_operand h dump g bb ins) [unat i..<256] of
        Raised d \<Rightarrow> Some (Raised d)
      | Passed \<Rightarrow> check_operands h dump g bb ins 0)"
proof (induction "255 - unat i" arbitrary: i)
  case 0
  have "unat i < 2 ^ LENGTH(8)" by (rule unsigned_less)
  with 0 have u: "unat i = 255" by simp
  then have "word_of_nat (unat i) = (word_of_nat 255 :: 8 word)" by simp
  then have "i = 255" by simp
  then have next0: "i + 1 = 0" by simp
  have upt: "[unat i..<256] = [255]" using u by (simp add: upt_rec)
  show ?case
    by (subst check_operands.simps) (use 0 u next0 upt in \<open>simp split: option.splits\<close>)
next
  case (Suc k)
  then have u: "unat i < 255" by simp
  then have succ: "unat (i + 1) = Suc (unat i)" by (rule unat_succ_u8)
  with Suc.hyps(2) have "k = 255 - unat (i + 1)" by simp
  from Suc.hyps(1) [OF this Suc.prems]
  have IH: "check_operands h dump g bb ins (i + 1) =
     (case first_diagnostic (check_operand h dump g bb ins) [Suc (unat i)..<256] of
        Raised d \<Rightarrow> Some (Raised d)
      | Passed \<Rightarrow> check_operands h dump g bb ins 0)"
    by (simp only: succ)
  have upt: "[unat i..<256] = unat i # [Suc (unat i)..<256]"
    using u by (simp add: upt_conv_Cons)
  from u Suc.prems have less: "unat i < num_operands (info ins)" by simp
  show ?case
    by (subst check_operands.simps) (simp add: less IH upt split: option.splits)
qed

lemma check_operands_wide:
  assumes wide: "255 < num_operands (info ins)"
  shows "check_operands h dump g bb ins 0 =
     (case first_diagnostic (check_operand h dump g bb ins) [0..<256] of
        Raised d \<Rightarrow> Some (Raised d)
      | Passed \<Rightarrow> None)"
proof (cases "first_diagnostic (check_operand h dump g bb ins) [0..<256]")
  case (Raised d)
  with check_operands_wide_step [OF wide, of h dump g bb 0] show ?thesis by simp
next
  case Passed
  then have none: "\<forall>j<256. check_operand h dump g bb ins j = None"
    by (simp add: first_diagnostic_Passed_iff)
  have "check_operands h dump g bb ins 0 = None"
  proof (cases "check_operands h dump g bb ins 0")
    case None
    then show ?thesis .
  next
    case (Some y)
    from check_operands_spins [OF Some] wide none show ?thesis by blast
  qed
  with Passed show ?thesis by simp
qed

text \<open>The operand loop, from its start, in full: within the range of the index it goes
  through the operands up to the first diagnostic; beyond it, it goes through the
  first 256 operands up to the first diagnostic, and does not return when there is
  none.\<close>

lemma check_operands_from_0_eq:
  "check_operands h dump g bb ins 0 =
     (if num_operands (info ins) \<le> 255
      then Some (first_diagnostic (check_operand h dump g bb ins) [0..<num_operands (info ins)])
      else (case first_diagnostic (check_operand h dump g bb ins) [0..<256] of
              Raised d \<Rightarrow> Some (Raised d)
            | Passed \<Rightarrow> None))"
proof (cases "num_operands (info ins) \<le> 255")
  case True
  from check_operands_bounded [OF True, of h dump g bb 0] True show ?thesis by simp
next
  case False
  then have "255 < num_operands (info ins)" by simp
  from check_operands_wide [OF this, of h dump g bb] False show ?thesis by simp
qed

section \<open>The checker on the example graphs\<close>

lemma all_less_2: "(\<forall>i<2. P i) \<longleftrightarrow> P (0::nat) \<and> P 1"
proof -
  have "i < 2 \<longleftrightarrow> i = 0 \<or> i = 1" for i :: nat by auto
  then show ?thesis by auto
qed

lemma all_less_3: "(\<forall>i<3. P i) \<longleftrightarrow> P (0::nat) \<and> P 1 \<and> P 2"
proof -
  have "i < 3 \<longleftrightarrow> i = 0 \<or> i = 1 \<or> i = 2" for i :: nat by auto
  then show ?thesis by auto
qed

lemma G_ok_in_order: "graph_in_order moar_header G_ok"
  by (simp add: graph_in_order_def G_ok_def B0_def I1_def I2_def V1_def V2_def
      operand_in_order_def is_read_operand_def is_write_operand_def moar_header_def
      MVM_spesh_get_facts_def two_values_def all_less_2 all_less_3)

lemma G_one_entry_in_order: "graph_in_order moar_header G_one_entry"
  by (simp add: graph_in_order_def G_one_entry_def B0_def I1_def I2_def V1_def V2_def
      operand_in_order_def is_read_operand_def is_write_operand_def moar_header_def
      MVM_spesh_get_facts_def two_values_def all_less_2 all_less_3)

lemma G_phi256_in_order: "graph_in_order moar_header G_phi256"
  by (simp add: graph_in_order_def G_phi256_def PHI256_def V1_def V2_def
      operand_in_order_def is_read_operand_def is_write_operand_def moar_header_def
      MVM_spesh_get_facts_def two_values_def)


lemma upt_0_2: "[0..<2] = [0, 1::nat]"
  by (simp add: upt_rec)

lemma upt_0_3: "[0..<3] = [0, 1, 2::nat]"
  by (simp add: upt_rec)

lemma G_one_entry_Passed:
  "MVM_spesh_usages_check moar_header graph_dump G_one_entry = Some Passed"
  using G_one_entry_in_order
  by (simp add: usages_check_Passed_iff graph_in_order_def)
    (simp add: G_one_entry_def B0_def I1_def I2_def)

lemma G_cleared_Raised:
  "MVM_spesh_usages_check moar_header graph_dump G_cleared =
     Some (Raised (Diagnostic
       (''Malformed DU chain: reader %s of %d(%d) in BB %d missing'' @ [CHR 0x0A] @ ''%s'')
       [Str ''add_i'', Num 1, Num 0, Num 0, Str ''(dump)'']))"
proof -
  have n1: "num_operands (info I1) \<le> 255" and n2: "num_operands (info I2) \<le> 255"
    by (simp_all add: I1_def I2_def)
  have c1: "check_operands moar_header graph_dump G_cleared B0 I1 0 = Some Passed"
    by (simp add: check_operands_bounded [OF n1])
      (simp add: I1_def upt_0_2 check_operand_def moar_header_def G_cleared_def V1_def
        two_values_def)
  have c2: "check_operands moar_header graph_dump G_cleared B0 I2 0 =
     Some (Raised (Diagnostic
       (''Malformed DU chain: reader %s of %d(%d) in BB %d missing'' @ [CHR 0x0A] @ ''%s'')
       [Str ''add_i'', Num 1, Num 0, Num 0, Str ''(dump)'']))"
    by (simp add: check_operands_bounded [OF n2])
      (simp add: I2_def upt_0_3 check_operand_def moar_header_def G_cleared_def V1_def V2_def
        two_values_def B0_def graph_dump_def)
  have "entry G_cleared = [B0]" by (simp add: G_cleared_def)
  moreover have "first_ins B0 = [I1, I2]" by (simp add: B0_def)
  ultimately show ?thesis
    by (simp add: MVM_spesh_usages_check_def c1 c2)
qed

section \<open>What a passed check establishes\<close>

text \<open>
  Claim C4, as stated, fails: the checker returns without a diagnostic on a graph in
  which \<open>I2\<close> reads \<open>V1\<close> in two operands while the chain of \<open>V1\<close> has one entry for
  \<open>I2\<close> and one entry for \<open>I3\<close>, an instruction that is not in the graph at all.
\<close>

theorem check_passed_not_chain_fidelity_counterexample:
  "MVM_spesh_usages_check moar_header graph_dump G_one_entry = Some Passed \<and>
   read_occurrences moar_header G_one_entry V1 (addr I2) = 2 \<and>
   count_list (users (usage (MVM_spesh_get_facts G_one_entry V1))) (addr I2) = 1 \<and>
   read_occurrences moar_header G_one_entry V1 (addr I3) = 0 \<and>
   count_list (users (usage (MVM_spesh_get_facts G_one_entry V1))) (addr I3) = 1 \<and>
   \<not> chain_fidelity moar_header G_one_entry"
proof -
  have r2: "read_occurrences moar_header G_one_entry V1 (addr I2) = 2"
    by (simp add: read_occurrences_def G_one_entry_def B0_def I1_def I2_def V1_def V2_def
        is_read_operand_def moar_header_def upt_0_3)
  have c2: "count_list (users (usage (MVM_spesh_get_facts G_one_entry V1))) (addr I2) = 1"
    by (simp add: G_one_entry_def MVM_spesh_get_facts_def two_values_def V1_def I2_def)
  have r3: "read_occurrences moar_header G_one_entry V1 (addr I3) = 0"
    by (simp add: read_occurrences_def G_one_entry_def B0_def I1_def I2_def I3_def)
  have c3: "count_list (users (usage (MVM_spesh_get_facts G_one_entry V1))) (addr I3) = 1"
    by (simp add: G_one_entry_def MVM_spesh_get_facts_def two_values_def V1_def I2_def I3_def)
  have "\<not> chain_fidelity moar_header G_one_entry"
  proof
    assume "chain_fidelity moar_header G_one_entry"
    then have "count_list (users (usage (MVM_spesh_get_facts G_one_entry V1))) (addr I3) =
      read_occurrences moar_header G_one_entry V1 (addr I3)"
      by (simp add: chain_fidelity_def)
    with r3 c3 show False by simp
  qed
  with G_one_entry_Passed r2 c2 r3 c3 show ?thesis by blast
qed

text \<open>
  Claim C4, amended. If the checker returns without a diagnostic, then for every operand
  of every instruction of every block that it classifies as a read, the chain of the
  value read has at least one entry for that instruction. (It does not count the
  entries, and it does not look at entries that no operand accounts for.)
\<close>

theorem check_passed_reads_present:
  "MVM_spesh_usages_check h dump g = Some Passed \<Longrightarrow>
   \<forall>bb\<in>set (entry g). \<forall>ins\<in>set (first_ins bb). \<forall>i<num_operands (info ins).
     is_read_operand h ins i \<longrightarrow>
       addr ins \<in> set (users (usage (MVM_spesh_get_facts g (operands ins i))))"
  by (simp add: usages_check_Passed_iff operand_in_order_def)

theorem check_passed_reads_present_witness:
  "MVM_spesh_usages_check moar_header graph_dump G_one_entry = Some Passed \<and>
   B0 \<in> set (entry G_one_entry) \<and> I2 \<in> set (first_ins B0) \<and>
   2 < num_operands (info I2) \<and>
   is_read_operand moar_header I2 1 \<and> is_read_operand moar_header I2 2 \<and>
   operands I2 1 = V1 \<and> operands I2 2 = V1 \<and>
   addr I2 \<in> set (users (usage (MVM_spesh_get_facts G_one_entry V1)))"
  using check_passed_reads_present [OF G_one_entry_Passed]
  by (simp add: G_one_entry_Passed)
    (simp add: G_one_entry_def B0_def I2_def is_read_operand_def moar_header_def
      MVM_spesh_get_facts_def two_values_def V1_def)

section \<open>When the checker raises a diagnostic\<close>

text \<open>
  For a graph whose instructions have at most 255 operands each (the range of the
  checker's \<^verbatim>\<open>MVMuint8\<close> operand index): the checker returns, it raises a diagnostic
  if and only if some operand classified as a read (for a PHI: every operand but the
  first) has no chain entry for its instruction, or some operand classified as a write
  (for a PHI: the first) has a writer other than its instruction; hence it returns
  without a diagnostic on a graph where every such operand is in order. Whenever it
  raises a diagnostic, for graphs of any size, the diagnostic is the one of an operand
  that is out of order, and it holds the opcode name (or "PHI"), the operand's register
  and version, the index of the block and the dump of the graph.
\<close>

lemma usages_check_within_255:
  "((\<forall>bb\<in>set (entry g). \<forall>ins\<in>set (first_ins bb). num_operands (info ins) \<le> 255) \<longrightarrow>
      (\<exists>y. MVM_spesh_usages_check h dump g = Some y) \<and>
      ((\<exists>d. MVM_spesh_usages_check h dump g = Some (Raised d)) \<longleftrightarrow> \<not> graph_in_order h g) \<and>
      (graph_in_order h g \<longrightarrow> MVM_spesh_usages_check h dump g = Some Passed)) \<and>
   (\<forall>d. MVM_spesh_usages_check h dump g = Some (Raised d) \<longrightarrow>
      (\<exists>bb\<in>set (entry g). \<exists>ins\<in>set (first_ins bb). \<exists>i<num_operands (info ins).
         \<not> operand_in_order h g ins i \<and> d = operand_diagnostic h dump g bb ins i))"
proof (intro conjI impI allI)
  assume small: "\<forall>bb\<in>set (entry g). \<forall>ins\<in>set (first_ins bb). num_operands (info ins) \<le> 255"
  from usages_check_returns [OF small] show ret: "\<exists>y. MVM_spesh_usages_check h dump g = Some y" .
  have passed: "MVM_spesh_usages_check h dump g = Some Passed \<longleftrightarrow> graph_in_order h g"
    using small by (auto simp: usages_check_Passed_iff graph_in_order_def)
  show "(\<exists>d. MVM_spesh_usages_check h dump g = Some (Raised d)) \<longleftrightarrow> \<not> graph_in_order h g"
  proof
    assume "\<exists>d. MVM_spesh_usages_check h dump g = Some (Raised d)"
    with passed show "\<not> graph_in_order h g" by auto
  next
    assume no: "\<not> graph_in_order h g"
    from ret obtain y where y: "MVM_spesh_usages_check h dump g = Some y" by blast
    with no passed show "\<exists>d. MVM_spesh_usages_check h dump g = Some (Raised d)"
      by (cases y) auto
  qed
  show "MVM_spesh_usages_check h dump g = Some Passed" if "graph_in_order h g"
    using that passed by simp
next
  fix d assume "MVM_spesh_usages_check h dump g = Some (Raised d)"
  then show "\<exists>bb\<in>set (entry g). \<exists>ins\<in>set (first_ins bb). \<exists>i<num_operands (info ins).
         \<not> operand_in_order h g ins i \<and> d = operand_diagnostic h dump g bb ins i"
    by (rule usages_check_Raised)
qed

lemma G_cleared_not_in_order: "\<not> graph_in_order moar_header G_cleared"
  by (simp add: graph_in_order_def G_cleared_def B0_def I1_def I2_def V1_def V2_def
      operand_in_order_def is_read_operand_def is_write_operand_def moar_header_def
      MVM_spesh_get_facts_def two_values_def all_less_2 all_less_3)

lemma usages_check_examples:
  "num_operands (info I1) \<le> 255 \<and> num_operands (info I2) \<le> 255 \<and>
   graph_in_order moar_header G_ok \<and>
   MVM_spesh_usages_check moar_header graph_dump G_ok = Some Passed \<and>
   \<not> graph_in_order moar_header G_cleared \<and>
   (\<exists>d. MVM_spesh_usages_check moar_header graph_dump G_cleared = Some (Raised d)) \<and>
   MVM_spesh_usages_check moar_header graph_dump G_cleared =
     Some (Raised (operand_diagnostic moar_header graph_dump G_cleared B0 I2 1)) \<and>
   operand_diagnostic moar_header graph_dump G_cleared B0 I2 1 =
     Diagnostic
       (''Malformed DU chain: reader %s of %d(%d) in BB %d missing'' @ [CHR 0x0A] @ ''%s'')
       [Str ''add_i'', Num 1, Num 0, Num 0, Str ''(dump)'']"
proof -
  have small_ok: "\<forall>bb\<in>set (entry G_ok). \<forall>ins\<in>set (first_ins bb). num_operands (info ins) \<le> 255"
    by (simp add: G_ok_def B0_def I1_def I2_def)
  have small_cl: "\<forall>bb\<in>set (entry G_cleared). \<forall>ins\<in>set (first_ins bb).
      num_operands (info ins) \<le> 255"
    by (simp add: G_cleared_def B0_def I1_def I2_def)
  have d: "operand_diagnostic moar_header graph_dump G_cleared B0 I2 1 =
     Diagnostic
       (''Malformed DU chain: reader %s of %d(%d) in BB %d missing'' @ [CHR 0x0A] @ ''%s'')
       [Str ''add_i'', Num 1, Num 0, Num 0, Str ''(dump)'']"
    by (simp add: operand_diagnostic_def is_read_operand_def moar_header_def I2_def V1_def
        B0_def graph_dump_def)
  from usages_check_within_255 [of G_ok moar_header graph_dump] small_ok G_ok_in_order
  have a: "MVM_spesh_usages_check moar_header graph_dump G_ok = Some Passed" by blast
  from usages_check_within_255 [of G_cleared moar_header graph_dump] small_cl G_cleared_not_in_order
  have b: "\<exists>d. MVM_spesh_usages_check moar_header graph_dump G_cleared = Some (Raised d)"
    by blast
  have n: "num_operands (info I1) \<le> 255 \<and> num_operands (info I2) \<le> 255"
    by (simp add: I1_def I2_def)
  from n G_ok_in_order a G_cleared_not_in_order b G_cleared_Raised d show ?thesis by simp
qed

section \<open>The operand index wraps\<close>

lemma G_phi257_never_returns:
  "\<not> operand_in_order moar_header G_phi257 PHI257 256 \<and>
   \<not> graph_in_order moar_header G_phi257 \<and>
   MVM_spesh_usages_check moar_header graph_dump G_phi257 = None"
proof -
  have bad: "\<not> operand_in_order moar_header G_phi257 PHI257 256"
    by (simp add: operand_in_order_def is_read_operand_def moar_header_def PHI257_def
        G_phi257_def V1_def V2_def V3_def MVM_spesh_get_facts_def two_values_def
        fresh_facts_def)
  have "PHI257 \<in> set (first_ins \<lparr>idx = 0, first_ins = [PHI257]\<rparr>)" by simp
  moreover have "\<lparr>idx = 0, first_ins = [PHI257]\<rparr> \<in> set (entry G_phi257)"
    by (simp add: G_phi257_def)
  moreover have "256 < num_operands (info PHI257)" by (simp add: PHI257_def)
  ultimately have no: "\<not> graph_in_order moar_header G_phi257"
    using bad unfolding graph_in_order_def by blast
  have "check_operand moar_header graph_dump G_phi257 bb PHI257 j = None" if "j < 256" for j bb
    using that
    by (simp add: check_operand_None operand_in_order_def is_read_operand_def
        is_write_operand_def moar_header_def PHI257_def G_phi257_def V1_def V2_def V3_def
        MVM_spesh_get_facts_def two_values_def)
  then have "first_diagnostic (check_operand moar_header graph_dump G_phi257 bb PHI257) [0..<256]
      = Passed" for bb
    by (simp add: first_diagnostic_Passed_iff)
  moreover have "255 < num_operands (info PHI257)" by (simp add: PHI257_def)
  ultimately have "check_operands moar_header graph_dump G_phi257 bb PHI257 0 = None" for bb
    by (simp add: check_operands_wide)
  then have "MVM_spesh_usages_check moar_header graph_dump G_phi257 = None"
    by (simp add: MVM_spesh_usages_check_def G_phi257_def)
  with bad no show ?thesis by simp
qed

text \<open>
  Claim C5 holds of graphs whose instructions have at most 255 operands
  (\<open>usages_check_within_255\<close>), and the code falls short of it beyond: the operand index
  of the checker is an \<^verbatim>\<open>MVMuint8\<close>, and \<^verbatim>\<open>i++\<close> takes it from 255 to 0 before it
  reaches \<^verbatim>\<open>num_operands\<close>. On the graph whose only instruction is a PHI with 256
  operands, every one of them in order, the checker does not return, where the claim
  has it complete without a diagnostic.
\<close>

theorem check_never_returns_phi256:
  "num_operands (info PHI256) = 256 \<and>
   graph_in_order moar_header G_phi256 \<and>
   MVM_spesh_usages_check moar_header graph_dump G_phi256 = None"
proof -
  have "MVM_spesh_usages_check moar_header graph_dump G_phi256 = None"
    by (rule usages_check_never_returns
          [OF G_phi256_in_order, of "\<lparr>idx = 0, first_ins = [PHI256]\<rparr>" PHI256])
      (simp_all add: G_phi256_def PHI256_def)
  with G_phi256_in_order show ?thesis by (simp add: PHI256_def)
qed

theorem check_never_returns_phi256_witness:
  "operand_in_order moar_header G_phi256 PHI256 0 \<and>
   operand_in_order moar_header G_phi256 PHI256 1 \<and>
   operand_in_order moar_header G_phi256 PHI256 255 \<and>
   MVM_spesh_usages_check moar_header graph_dump G_phi256 \<noteq> Some Passed"
proof -
  from check_never_returns_phi256 have
    n: "num_operands (info PHI256) = 256" and
    g: "graph_in_order moar_header G_phi256" and
    c: "MVM_spesh_usages_check moar_header graph_dump G_phi256 = None" by simp_all
  from g have "\<forall>i<num_operands (info PHI256). operand_in_order moar_header G_phi256 PHI256 i"
    by (simp add: graph_in_order_def G_phi256_def)
  with n have "operand_in_order moar_header G_phi256 PHI256 i" if "i < 256" for i
    using that by simp
  from this [of 0] this [of 1] this [of 255] c show ?thesis by simp
qed

end
